theory Spec2Isabelle
  imports Main "HOL-Library.Sublist"
begin

section \<open>Data model\<close>

text \<open>
  A clue as \<open>readCluesFromSheet\<close> builds it: \<open>{question, answer, clueType}\<close>, where
  \<open>clueType\<close> is a string or \<open>null\<close>. Strings are byte lists. No statement of the
  script assigns to a field of a clue, so clue objects are modelled as values; the arrays
  that hold them are mutable and live in the store below.
\<close>

record clue =
  question :: string
  answer :: string
  clueType :: "string option"

text \<open>One entry of a group's sequence, as pushed onto \<open>candidateSequence\<close>.\<close>

record step =
  clueNumber :: nat
  question :: string
  location :: string
  nextClue :: string

text \<open>\<open>throw new Error(msg)\<close>, and the \<open>TypeError\<close> of reading a property of \<open>undefined\<close>.\<close>

datatype error = Error string | TypeError

text \<open>
  The store: every JavaScript array of clues is an address into \<open>arrays\<close>;
  \<open>next_addr\<close> is the first address not yet allocated. \<open>Math.random\<close> is an oracle
  \<open>random_src\<close> of raw values together with the number of calls made so far.
\<close>

record world =
  arrays :: "nat \<Rightarrow> clue list"
  next_addr :: nat
  random_src :: "nat \<Rightarrow> nat"
  draws :: nat

text \<open>The two \<open>Set\<close>s of the run: \<open>usedFirstClues\<close> and \<open>usedConsecutivePairs\<close>.\<close>

type_synonym ledger = "string set \<times> string set"

section \<open>Primitive operations\<close>

text \<open>A fresh array (\<open>filter\<close>, \<open>slice\<close>, a spread copy, \<open>[]\<close>) with the given contents.\<close>

definition alloc :: "clue list \<Rightarrow> world \<Rightarrow> nat \<times> world" where
  "alloc xs w =
     (next_addr w, w\<lparr>arrays := (arrays w)(next_addr w := xs), next_addr := Suc (next_addr w)\<rparr>)"

definition writeArr :: "nat \<Rightarrow> clue list \<Rightarrow> world \<Rightarrow> world" where
  "writeArr a xs w = w\<lparr>arrays := (arrays w)(a := xs)\<rparr>"

text \<open>
  \<open>Math.floor(Math.random() * k)\<close>: some integer below \<open>k\<close> (0 when \<open>k\<close> is 0), chosen by
  the oracle; one call of \<open>Math.random\<close> is consumed.
\<close>

definition randomInt :: "nat \<Rightarrow> world \<Rightarrow> nat \<times> world" where
  "randomInt k w =
     ((if k = 0 then 0 else random_src w (draws w) mod k), w\<lparr>draws := Suc (draws w)\<rparr>)"

text \<open>
  \<open>String.prototype.toLowerCase\<close> on the ASCII letters. No character outside ASCII
  lowercases to a letter of \<open>person\<close> or \<open>place\<close>, so the comparisons of the script
  are decided by this part of the mapping.
\<close>

definition lowerChar :: "char \<Rightarrow> char" where
  "lowerChar c =
     (case map_of (zip ''ABCDEFGHIJKLMNOPQRSTUVWXYZ'' ''abcdefghijklmnopqrstuvwxyz'') c of
        None \<Rightarrow> c
      | Some l \<Rightarrow> l)"

definition toLowerCase :: "string \<Rightarrow> string" where
  "toLowerCase s = map lowerChar s"

text \<open>Decimal rendering of a number inside a template literal.\<close>

fun showNat :: "nat \<Rightarrow> string" where
  "showNat n =
     (if n < 10 then [''0123456789'' ! n]
      else showNat (n div 10) @ [''0123456789'' ! (n mod 10)])"

declare showNat.simps [simp del]

section \<open>shuffleArray\<close>

text \<open>
  \<open>for (i = array.length - 1; i > 0; i--) { j = floor(random() * (i + 1)); swap i j }\<close>,
  in place on the array at address \<open>a\<close>.
\<close>

fun shuffleLoop :: "nat \<Rightarrow> nat \<Rightarrow> world \<Rightarrow> world" where
  "shuffleLoop a 0 w = w"
| "shuffleLoop a (Suc i) w =
     (let (j, w1) = randomInt (Suc i + 1) w;
          xs = arrays w1 a
      in shuffleLoop a i (writeArr a (xs[Suc i := xs ! j, j := xs ! Suc i]) w1))"

definition shuffleArray :: "nat \<Rightarrow> world \<Rightarrow> world" where
  "shuffleArray a w = shuffleLoop a (length (arrays w a) - 1) w"

section \<open>createAlternatingSequence\<close>

text \<open>The three \<open>filter\<close> predicates; \<open>null\<close> and the empty string are falsy.\<close>

definition isPerson :: "clue \<Rightarrow> bool" where
  "isPerson c =
     (case clueType c of None \<Rightarrow> False | Some t \<Rightarrow> t \<noteq> [] \<and> toLowerCase t = ''person'')"

definition isPlace :: "clue \<Rightarrow> bool" where
  "isPlace c =
     (case clueType c of None \<Rightarrow> False | Some t \<Rightarrow> t \<noteq> [] \<and> toLowerCase t = ''place'')"

definition isOther :: "clue \<Rightarrow> bool" where
  "isOther c =
     (case clueType c of
        None \<Rightarrow> True
      | Some t \<Rightarrow> t = [] \<or> toLowerCase t \<notin> set [''person'', ''place''])"

text \<open>The two values of the loop variable \<open>currentType\<close>.\<close>

datatype current_type = CurPlace | CurPerson

text \<open>
  The interleaving loop, \<open>n\<close> iterations left; \<open>result\<close> collects the pushed clues.
  An iteration in which both partitions are exhausted pushes nothing.
\<close>

fun interleave ::
  "nat \<Rightarrow> clue list \<Rightarrow> clue list \<Rightarrow> clue list \<Rightarrow> nat \<Rightarrow> nat \<Rightarrow> current_type \<Rightarrow> clue list"
where
  "interleave 0 personClues placeClues result personIdx placeIdx currentType = result"
| "interleave (Suc n) personClues placeClues result personIdx placeIdx currentType =
     (if currentType = CurPlace \<and> placeIdx < length placeClues then
        interleave n personClues placeClues (result @ [placeClues ! placeIdx])
          personIdx (placeIdx + 1) CurPerson
      else if currentType = CurPerson \<and> personIdx < length personClues then
        interleave n personClues placeClues (result @ [personClues ! personIdx])
          (personIdx + 1) placeIdx CurPlace
      else if placeIdx < length placeClues then
        interleave n personClues placeClues (result @ [placeClues ! placeIdx])
          personIdx (placeIdx + 1) CurPerson
      else if personIdx < length personClues then
        interleave n personClues placeClues (result @ [personClues ! personIdx])
          (personIdx + 1) placeIdx CurPlace
      else interleave n personClues placeClues result personIdx placeIdx currentType)"

text \<open>
  The search of the post-pass, \<open>for (i = 0; i < result.length - 2; i++)\<close>: the first
  index from \<open>i\<close> on, below \<open>result.length - 2\<close>, that holds a Place.
\<close>

function findPlace :: "clue list \<Rightarrow> nat \<Rightarrow> nat option" where
  "findPlace result i =
     (if i < length result - 2 then
        (if isPlace (result ! i) then Some i else findPlace result (i + 1))
      else None)"
  by pat_completeness auto
termination
  by (relation "measure (\<lambda>(result, i). length result - 2 - i)") auto

declare findPlace.simps [simp del]

text \<open>The post-pass: swap the first Place found with a Person at the second-to-last index.\<close>

definition preferPlace :: "clue list \<Rightarrow> clue list" where
  "preferPlace result =
     (if length result \<ge> 2 then
        (let secondToLastIdx = length result - 2 in
         if isPerson (result ! secondToLastIdx) then
           (case findPlace result 0 of
              None \<Rightarrow> result
            | Some i \<Rightarrow> result[i := result ! secondToLastIdx, secondToLastIdx := result ! i])
         else result)
      else result)"

text \<open>
  \<open>for (const clue of otherClues) { pos = floor(random() * result.length) + 1;
  result.splice(pos, 0, clue) }\<close> on the array at address \<open>result\<close>.
\<close>

fun insertOthers :: "clue list \<Rightarrow> nat \<Rightarrow> world \<Rightarrow> world" where
  "insertOthers [] result w = w"
| "insertOthers (c # cs) result w =
     (let res = arrays w result;
          (k, w1) = randomInt (length res) w;
          pos = k + 1
      in insertOthers cs result (writeArr result (take pos res @ [c] @ drop pos res) w1))"

text \<open>
  The builder. It returns the address of the fresh \<open>result\<close> array, or \<open>None\<close> for
  \<open>null\<close>. The three partitions are fresh arrays, shuffled in place.
\<close>

definition createAlternatingSequence :: "nat \<Rightarrow> world \<Rightarrow> nat option \<times> world" where
  "createAlternatingSequence clues w =
     (let (personClues, w1) = alloc (filter isPerson (arrays w clues)) w;
          (placeClues, w2) = alloc (filter isPlace (arrays w1 clues)) w1;
          (otherClues, w3) = alloc (filter isOther (arrays w2 clues)) w2
      in if length (arrays w3 placeClues) = 0 then (None, w3)
         else if length (arrays w3 personClues) + length (arrays w3 placeClues) < 2
           then (None, w3)
         else
           (let w4 = shuffleArray personClues w3;
                w5 = shuffleArray placeClues w4;
                w6 = shuffleArray otherClues w5;
                (result, w7) = alloc [] w6;
                totalTyped = length (arrays w7 personClues) + length (arrays w7 placeClues);
                w8 = writeArr result
                       (interleave totalTyped (arrays w7 personClues) (arrays w7 placeClues)
                          (arrays w7 result) 0 0 CurPlace) w7;
                w9 = writeArr result (preferPlace (arrays w8 result)) w8;
                w10 = insertOthers (arrays w9 otherClues) result w9
            in (Some result, w10)))"

section \<open>Constraint validator and ledger\<close>

text \<open>
  The membership key of an adjacent pair, \<open>`${a.question}|${b.question}`\<close>, for every
  index \<open>i < shuffledClues.length - 1\<close>.
\<close>

definition pairKey :: "string \<Rightarrow> string \<Rightarrow> string" where
  "pairKey q1 q2 = q1 @ ''|'' @ q2"

definition pairKeys :: "clue list \<Rightarrow> string list" where
  "pairKeys shuffledClues =
     map (\<lambda>i. pairKey (clue.question (shuffledClues ! i)) (clue.question (shuffledClues ! (i + 1))))
       [0..<length shuffledClues - 1]"

text \<open>\<open>t && ['person', 'place'].includes(t.toLowerCase())\<close>.\<close>

definition isTyped :: "string option \<Rightarrow> bool" where
  "isTyped t =
     (case t of
        None \<Rightarrow> False
      | Some s \<Rightarrow> s \<noteq> [] \<and> toLowerCase s \<in> set [''person'', ''place''])"

text \<open>The condition counted as a violation at index \<open>i\<close> by \<open>followsAlternatingTypes\<close>.\<close>

definition sameTypeAt :: "clue list \<Rightarrow> nat \<Rightarrow> bool" where
  "sameTypeAt shuffledClues i =
     (let currentType = clueType (shuffledClues ! i);
          nextType = clueType (shuffledClues ! (i + 1))
      in isTyped currentType \<and> isTyped nextType \<and>
         map_option toLowerCase currentType = map_option toLowerCase nextType)"

definition followsAlternatingTypes :: "clue list \<Rightarrow> bool" where
  "followsAlternatingTypes shuffledClues =
     (let typedClues = filter (\<lambda>c. isTyped (clueType c)) shuffledClues in
      if length typedClues < 2 then True
      else
        (let violations = length (filter (sameTypeAt shuffledClues) [0..<length shuffledClues - 1])
         in violations \<le> length shuffledClues div 2))"

text \<open>
  Rule 1b of \<open>violatesConstraints\<close>, the condition of its second \<open>if\<close>:
  \<open>shuffledClues[0].clueType && shuffledClues[0].clueType.toLowerCase() !== 'place'\<close>.
\<close>

definition placeFirstViolated :: "clue \<Rightarrow> bool" where
  "placeFirstViolated c =
     (case clueType c of None \<Rightarrow> False | Some t \<Rightarrow> t \<noteq> [] \<and> toLowerCase t \<noteq> ''place'')"

text \<open>
  \<open>violatesConstraints\<close>. Reading \<open>shuffledClues[0].question\<close> of an empty array throws
  a \<open>TypeError\<close>. The rules are tried in the order of the source.
\<close>

definition violatesConstraints :: "clue list \<Rightarrow> string set \<Rightarrow> string set \<Rightarrow> error + bool" where
  "violatesConstraints shuffledClues usedFirstClues usedConsecutivePairs =
     (case shuffledClues of
        [] \<Rightarrow> Inl TypeError
      | c0 # _ \<Rightarrow>
          Inr (if clue.question c0 \<in> usedFirstClues then True
               else if placeFirstViolated c0 then True
               else if list_ex (\<lambda>pair. pair \<in> usedConsecutivePairs) (pairKeys shuffledClues)
                 then True
               else if \<not> followsAlternatingTypes shuffledClues then True
               else False))"

text \<open>\<open>recordConstraints\<close>: both sets grow; the empty array throws as above.\<close>

definition recordConstraints :: "clue list \<Rightarrow> string set \<Rightarrow> string set \<Rightarrow> error + ledger" where
  "recordConstraints shuffledClues usedFirstClues usedConsecutivePairs =
     (case shuffledClues of
        [] \<Rightarrow> Inl TypeError
      | c0 # _ \<Rightarrow>
          Inr (insert (clue.question c0) usedFirstClues,
               usedConsecutivePairs \<union> set (pairKeys shuffledClues)))"

section \<open>generateHuntSequences\<close>

definition maxAttempts :: nat where
  "maxAttempts = 100"

text \<open>The step pushed for index \<open>i\<close> of \<open>shuffledClues\<close>, and the step of the final clue.\<close>

definition stepAt :: "nat \<Rightarrow> clue list \<Rightarrow> clue \<Rightarrow> nat \<Rightarrow> step" where
  "stepAt groupNum shuffledClues finalClue i =
     (let c = shuffledClues ! i;
          clueNumber = i + 1;
          nextClue =
            (if i < length shuffledClues - 1 then
               ''Group '' @ showNat groupNum @ '' Clue '' @ showNat (clueNumber + 1) @ ''. '' @
                 clue.question (shuffledClues ! (i + 1))
             else
               ''Group '' @ showNat groupNum @ '' Clue '' @ showNat (clueNumber + 1) @ ''. '' @
                 clue.question finalClue)
      in \<lparr>clueNumber = clueNumber, question = clue.question c,
          location = ''Hide this at/with: '' @ answer c, nextClue = nextClue\<rparr>)"

definition finalStep :: "clue list \<Rightarrow> clue \<Rightarrow> step" where
  "finalStep shuffledClues finalClue =
     \<lparr>clueNumber = length shuffledClues + 1, question = clue.question finalClue,
      location = ''Hide this at/with: '' @ answer finalClue,
      nextClue = showNat (length shuffledClues + 2) @ ''. The End''\<rparr>"

text \<open>\<open>candidateSequence\<close>: one push per index of \<open>shuffledClues\<close>, then the final step.\<close>

definition candidateSequence :: "nat \<Rightarrow> clue list \<Rightarrow> clue \<Rightarrow> step list" where
  "candidateSequence groupNum shuffledClues finalClue =
     map (stepAt groupNum shuffledClues finalClue) [0..<length shuffledClues] @
     [finalStep shuffledClues finalClue]"

text \<open>
  Lines 172 to 183 of one attempt: the builder's array if it exists and passes the
  validator, else a shuffled copy of \<open>randomizableClues\<close> if that passes, else \<open>None\<close>
  (the \<open>continue\<close>). The result is the address of \<open>shuffledClues\<close>.
\<close>

definition pickCandidate :: "nat \<Rightarrow> ledger \<Rightarrow> world \<Rightarrow> (error + nat option) \<times> world" where
  "pickCandidate randomizableClues L w =
     (let (alt, w1) = createAlternatingSequence randomizableClues w in
      case (case alt of
              None \<Rightarrow> Inr True
            | Some a \<Rightarrow> violatesConstraints (arrays w1 a) (fst L) (snd L)) of
        Inl e \<Rightarrow> (Inl e, w1)
      | Inr False \<Rightarrow> (Inr alt, w1)
      | Inr True \<Rightarrow>
          (let (shuffledClues, w2) = alloc (arrays w1 randomizableClues) w1;
               w3 = shuffleArray shuffledClues w2
           in case violatesConstraints (arrays w3 shuffledClues) (fst L) (snd L) of
                Inl e \<Rightarrow> (Inl e, w3)
              | Inr True \<Rightarrow> (Inr None, w3)
              | Inr False \<Rightarrow> (Inr (Some shuffledClues), w3)))"

text \<open>
  The \<open>while (sequence === null && attempts < maxAttempts)\<close> loop of one group. It
  returns the sequence (\<open>None\<close> for \<open>null\<close>), the final value of \<open>attempts\<close> and the ledger.
\<close>

function attemptLoop ::
  "nat \<Rightarrow> clue \<Rightarrow> nat \<Rightarrow> nat \<Rightarrow> ledger \<Rightarrow> world \<Rightarrow>
     (error + (step list option \<times> nat \<times> ledger)) \<times> world"
where
  "attemptLoop randomizableClues finalClue groupNum attempts L w =
     (if attempts < maxAttempts then
        (case pickCandidate randomizableClues L w of
           (Inl e, w1) \<Rightarrow> (Inl e, w1)
         | (Inr None, w1) \<Rightarrow>
             attemptLoop randomizableClues finalClue groupNum (attempts + 1) L w1
         | (Inr (Some shuffledClues), w1) \<Rightarrow>
             (case recordConstraints (arrays w1 shuffledClues) (fst L) (snd L) of
                Inl e \<Rightarrow> (Inl e, w1)
              | Inr L' \<Rightarrow>
                  (Inr (Some (candidateSequence groupNum (arrays w1 shuffledClues) finalClue),
                        attempts + 1, L'), w1)))
      else (Inr (None, attempts, L), w))"
  by pat_completeness auto
termination
  by (relation "measure (\<lambda>(r, f, g, attempts, L, w). maxAttempts - attempts)") auto

declare attemptLoop.simps [simp del]

definition exhaustedMessage :: "nat \<Rightarrow> string" where
  "exhaustedMessage groupNum =
     ''Could not generate valid sequence for Group '' @ showNat groupNum @ '' after '' @
     showNat maxAttempts @ '' attempts. Try using more clues or fewer groups.''"

text \<open>The \<open>for (groupNum = 1; groupNum <= numGroups; groupNum++)\<close> loop.\<close>

function groupLoop ::
  "nat \<Rightarrow> clue \<Rightarrow> nat \<Rightarrow> nat \<Rightarrow> (nat \<rightharpoonup> step list) \<Rightarrow> ledger \<Rightarrow> world \<Rightarrow>
     (error + (nat \<rightharpoonup> step list)) \<times> world"
where
  "groupLoop randomizableClues finalClue numGroups groupNum allSequences L w =
     (if groupNum \<le> numGroups then
        (case attemptLoop randomizableClues finalClue groupNum 0 L w of
           (Inl e, w1) \<Rightarrow> (Inl e, w1)
         | (Inr (None, attempts, L'), w1) \<Rightarrow> (Inl (Error (exhaustedMessage groupNum)), w1)
         | (Inr (Some sequence, attempts, L'), w1) \<Rightarrow>
             groupLoop randomizableClues finalClue numGroups (groupNum + 1)
               (allSequences(groupNum \<mapsto> sequence)) L' w1)
      else (Inr allSequences, w))"
  by pat_completeness auto
termination
  by (relation "measure (\<lambda>(r, f, numGroups, groupNum, m, L, w). numGroups + 1 - groupNum)") auto

declare groupLoop.simps [simp del]

text \<open>
  The generator, on the array at address \<open>clues\<close>. \<open>clues.slice(0, -1)\<close> is a fresh
  array; the two sets start empty. The group count is a natural number: the caller passes
  the result of \<open>parseInt\<close>, and a count below 1 runs the group loop zero times, as 0
  does here. The result is the thrown error or the object \<open>allSequences\<close>, a map from
  group numbers to sequences, together with the store after the run.
\<close>

definition generateHuntSequences ::
  "nat \<Rightarrow> nat \<Rightarrow> world \<Rightarrow> (error + (nat \<rightharpoonup> step list)) \<times> world"
where
  "generateHuntSequences clues numGroups w =
     (if length (arrays w clues) < 2 then
        (Inl (Error ''Need at least 2 clues to generate a hunt''), w)
      else
        (let finalClue = arrays w clues ! (length (arrays w clues) - 1);
             (randomizableClues, w1) = alloc (butlast (arrays w clues)) w
         in groupLoop randomizableClues finalClue numGroups 1 Map.empty ({}, {}) w1))"

section \<open>Notions used to state the properties\<close>

text \<open>
  A later store \<open>w'\<close> extends \<open>w\<close> when every array allocated in \<open>w\<close> is
  still allocated and holds the same clues in the same order.
\<close>

definition extends :: "world \<Rightarrow> world \<Rightarrow> bool" where
  "extends w w' \<longleftrightarrow>
     next_addr w \<le> next_addr w' \<and> (\<forall>a<next_addr w. arrays w' a = arrays w a)"

text \<open>
  The ordered pairs of question texts that are adjacent in the randomizable portion of a
  sequence, that is, among the steps before the final clue's step.
\<close>

definition adjacentQuestions :: "step list \<Rightarrow> (string \<times> string) list" where
  "adjacentQuestions s = (let qs = map step.question (butlast s) in zip qs (tl qs))"

text \<open>
  The chain of a sequence: steps numbered from 1 without gaps, every label naming the
  question of the following step, and the terminal marker on the last step.
\<close>

definition chainLinked :: "step list \<Rightarrow> bool" where
  "chainLinked s \<longleftrightarrow>
     s \<noteq> [] \<and>
     (\<forall>i<length s. clueNumber (s ! i) = i + 1) \<and>
     (\<forall>i<length s - 1. sublist (step.question (s ! (i + 1))) (nextClue (s ! i))) \<and>
     sublist ''The End'' (nextClue (last s))"

text \<open>
  Invariants of the group loop. Every sequence assigned so far was built from an accepted
  ordering whose first question and pair keys are in the ledger; sequences of different
  groups open differently and share no adjacent pair; all sequences have one length.
\<close>

definition committed :: "clue \<Rightarrow> (nat \<rightharpoonup> step list) \<Rightarrow> ledger \<Rightarrow> bool" where
  "committed fc m L \<longleftrightarrow>
     (\<forall>k s. m k = Some s \<longrightarrow>
        (\<exists>sc. sc \<noteq> [] \<and> s = candidateSequence k sc fc \<and>
              clue.question (sc ! 0) \<in> fst L \<and> set (pairKeys sc) \<subseteq> snd L))"

definition separated :: "(nat \<rightharpoonup> step list) \<Rightarrow> bool" where
  "separated m \<longleftrightarrow>
     (\<forall>k k' s s'. m k = Some s \<and> m k' = Some s' \<and> k \<noteq> k' \<longrightarrow>
        step.question (s ! 0) \<noteq> step.question (s' ! 0) \<and>
        set (adjacentQuestions s) \<inter> set (adjacentQuestions s') = {})"

definition allLength :: "nat \<Rightarrow> (nat \<rightharpoonup> step list) \<Rightarrow> bool" where
  "allLength n m \<longleftrightarrow> (\<forall>k s. m k = Some s \<longrightarrow> length s = n)"

text \<open>
  The head of the group loop after \<open>n\<close> groups in a row, from \<open>groupNum\<close> on,
  committed a sequence: the next group number, the mapping with the sequences assigned
  so far, the ledger and the store. \<open>None\<close> if one of these groups did not commit.
\<close>

fun afterCommits ::
  "nat \<Rightarrow> clue \<Rightarrow> nat \<Rightarrow> nat \<Rightarrow> (nat \<rightharpoonup> step list) \<Rightarrow> ledger \<Rightarrow> world \<Rightarrow>
     (nat \<times> (nat \<rightharpoonup> step list) \<times> ledger \<times> world) option"
where
  "afterCommits randomizableClues finalClue 0 groupNum allSequences L w =
     Some (groupNum, allSequences, L, w)"
| "afterCommits randomizableClues finalClue (Suc n) groupNum allSequences L w =
     (case attemptLoop randomizableClues finalClue groupNum 0 L w of
        (Inr (Some sequence, attempts, L'), w1) \<Rightarrow>
          afterCommits randomizableClues finalClue n (groupNum + 1)
            (allSequences(groupNum \<mapsto> sequence)) L' w1
      | _ \<Rightarrow> None)"

subsection \<open>Example inputs\<close>

text \<open>
  The pool of the README: two Place clues and the final clue. The random source of the
  examples answers call number \<open>n\<close> with the raw value \<open>n\<close>.
\<close>

definition cluePiano :: clue where
  "cluePiano =
     \<lparr>clue.question = ''What has keys?'', answer = ''Piano'', clueType = Some ''Place''\<rparr>"

definition clueClock :: clue where
  "clueClock =
     \<lparr>clue.question = ''What has a face?'', answer = ''Clock'', clueType = Some ''Place''\<rparr>"

definition clueKevin :: clue where
  "clueKevin =
     \<lparr>clue.question = ''Who created this hunt?'', answer = ''Kevin'',
      clueType = Some ''Person''\<rparr>"

definition clueGuard :: clue where
  "clueGuard =
     \<lparr>clue.question = ''Who guards the door?'', answer = ''Guard'',
      clueType = Some ''Person''\<rparr>"

definition clueAnimal :: clue where
  "clueAnimal =
     \<lparr>clue.question = ''What barks?'', answer = ''Dog'', clueType = Some ''Animal''\<rparr>"

definition exWorld :: world where
  "exWorld =
     \<lparr>arrays = (\<lambda>_. [])(0 := [cluePiano, clueClock, clueKevin]), next_addr = 1,
      random_src = (\<lambda>n. n), draws = 0\<rparr>"

text \<open>The stores and the ledger that the run on \<open>exWorld\<close> with two groups passes through.\<close>

definition exWorld1 :: world where
  "exWorld1 =
     \<lparr>arrays = (\<lambda>_. [])(0 := [cluePiano, clueClock, clueKevin], 1 := [cluePiano, clueClock]),
      next_addr = 2, random_src = (\<lambda>n. n), draws = 0\<rparr>"

definition exWorld2 :: world where
  "exWorld2 =
     \<lparr>arrays = (\<lambda>_. [])(0 := [cluePiano, clueClock, clueKevin], 1 := [cluePiano, clueClock],
        2 := [], 4 := [], 3 := [clueClock, cluePiano], 5 := [clueClock, cluePiano]),
      next_addr = 6, random_src = (\<lambda>n. n), draws = 1\<rparr>"

definition exWorld3 :: world where
  "exWorld3 =
     \<lparr>arrays = (\<lambda>_. [])(0 := [cluePiano, clueClock, clueKevin], 1 := [cluePiano, clueClock],
        2 := [], 4 := [], 3 := [clueClock, cluePiano], 5 := [clueClock, cluePiano],
        6 := [], 7 := [cluePiano, clueClock], 8 := [], 9 := [cluePiano, clueClock]),
      next_addr = 10, random_src = (\<lambda>n. n), draws = 2\<rparr>"

definition exLedger1 :: ledger where
  "exLedger1 = ({''What has a face?''}, {''What has a face?|What has keys?''})"

definition exSequences :: "nat \<rightharpoonup> step list" where
  "exSequences =
     [1 \<mapsto> candidateSequence 1 [clueClock, cluePiano] clueKevin,
      2 \<mapsto> candidateSequence 2 [cluePiano, clueClock] clueKevin]"

text \<open>Smaller pools: a Place, a Person or nothing before the final clue, and a typed trio.\<close>

definition pianoWorld :: world where
  "pianoWorld =
     \<lparr>arrays = (\<lambda>_. [])(0 := [cluePiano, clueKevin]), next_addr = 1,
      random_src = (\<lambda>n. n), draws = 0\<rparr>"

definition guardWorld :: world where
  "guardWorld =
     \<lparr>arrays = (\<lambda>_. [])(0 := [clueGuard, clueKevin]), next_addr = 1,
      random_src = (\<lambda>n. n), draws = 0\<rparr>"

definition lonelyWorld :: world where
  "lonelyWorld =
     \<lparr>arrays = (\<lambda>_. [])(0 := [cluePiano]), next_addr = 1,
      random_src = (\<lambda>n. n), draws = 0\<rparr>"

definition swapWorld :: world where
  "swapWorld =
     \<lparr>arrays = (\<lambda>_. [])(0 := [cluePiano, clueGuard, clueKevin]), next_addr = 1,
      random_src = (\<lambda>n. n), draws = 0\<rparr>"

section \<open>Frame and length of the array operations\<close>

text \<open>
  Each operation writes only the array it is given, or arrays it allocates, and keeps
  the lengths the later proofs rely on.
\<close>

lemma extends_refl: "extends w w"
  by (simp add: extends_def)

lemma extends_trans: "extends w1 w2 \<Longrightarrow> extends w2 w3 \<Longrightarrow> extends w1 w3"
  by (auto simp: extends_def)

lemma extends_arrays: "extends w w' \<Longrightarrow> a < next_addr w \<Longrightarrow> arrays w' a = arrays w a"
  by (simp add: extends_def)

lemma extends_next: "extends w w' \<Longrightarrow> a < next_addr w \<Longrightarrow> a < next_addr w'"
  by (simp add: extends_def)

lemma alloc_fst: "fst (alloc xs w) = next_addr w"
  by (simp add: alloc_def)

lemma alloc_next: "next_addr (snd (alloc xs w)) = Suc (next_addr w)"
  by (simp add: alloc_def)

lemma alloc_arrays: "arrays (snd (alloc xs w)) = (arrays w)(next_addr w := xs)"
  by (simp add: alloc_def)

lemma alloc_extends: "extends w (snd (alloc xs w))"
  by (simp add: extends_def alloc_def)

lemma writeArr_next: "next_addr (writeArr a xs w) = next_addr w"
  by (simp add: writeArr_def)

lemma writeArr_arrays: "arrays (writeArr a xs w) = (arrays w)(a := xs)"
  by (simp add: writeArr_def)

lemma randomInt_next: "next_addr (snd (randomInt k w)) = next_addr w"
  by (simp add: randomInt_def)

lemma randomInt_arrays: "arrays (snd (randomInt k w)) = arrays w"
  by (simp add: randomInt_def)

lemma shuffleLoop_next: "next_addr (shuffleLoop a i w) = next_addr w"
  by (induction i arbitrary: w)
     (simp_all add: split_def Let_def writeArr_next randomInt_next)

lemma shuffleLoop_other: "b \<noteq> a \<Longrightarrow> arrays (shuffleLoop a i w) b = arrays w b"
  by (induction i arbitrary: w)
     (simp_all add: split_def Let_def writeArr_arrays randomInt_arrays)

lemma shuffleLoop_length: "length (arrays (shuffleLoop a i w) a) = length (arrays w a)"
  by (induction i arbitrary: w)
     (simp_all add: split_def Let_def writeArr_arrays randomInt_arrays)

lemma shuffleArray_next: "next_addr (shuffleArray a w) = next_addr w"
  by (simp add: shuffleArray_def shuffleLoop_next)

lemma shuffleArray_other: "b \<noteq> a \<Longrightarrow> arrays (shuffleArray a w) b = arrays w b"
  by (simp add: shuffleArray_def shuffleLoop_other)

lemma shuffleArray_length: "length (arrays (shuffleArray a w) a) = length (arrays w a)"
  by (simp add: shuffleArray_def shuffleLoop_length)

lemma insertOthers_next: "next_addr (insertOthers cs r w) = next_addr w"
  by (induction cs arbitrary: w)
     (simp_all add: split_def Let_def writeArr_next randomInt_next)

lemma insertOthers_other: "b \<noteq> r \<Longrightarrow> arrays (insertOthers cs r w) b = arrays w b"
  by (induction cs arbitrary: w)
     (simp_all add: split_def Let_def writeArr_arrays randomInt_arrays)

lemma insertOthers_length:
  "length (arrays (insertOthers cs r w) r) = length (arrays w r) + length cs"
  by (induction cs arbitrary: w)
     (simp_all add: split_def Let_def writeArr_arrays randomInt_arrays randomInt_def)

lemma interleave_length:
  "length (interleave n ps ls res pi li ct) =
     length res + min n ((length ps - pi) + (length ls - li))"
  by (induction n ps ls res pi li ct rule: interleave.induct) auto

lemma preferPlace_length: "length (preferPlace res) = length res"
  by (simp add: preferPlace_def Let_def split: option.splits)

lemma isOther_iff: "isOther c \<longleftrightarrow> \<not> isPerson c \<and> \<not> isPlace c"
  by (auto simp: isOther_def isPerson_def isPlace_def split: option.splits)

lemma not_person_and_place: "isPerson c \<Longrightarrow> \<not> isPlace c"
  by (auto simp: isPerson_def isPlace_def split: option.splits)

lemma partition_length:
  "length (filter isPerson cs) + length (filter isPlace cs) + length (filter isOther cs) = length cs"
  by (induction cs) (auto simp: isOther_iff dest: not_person_and_place)

section \<open>The builder allocates what it writes\<close>

lemma createAlternatingSequence_extends:
  "extends w (snd (createAlternatingSequence clues w))"
  unfolding createAlternatingSequence_def extends_def
  by (simp add: Let_def split_def alloc_def writeArr_def shuffleArray_next shuffleArray_other
      insertOthers_next insertOthers_other)

lemma createAlternatingSequence_result:
  assumes "clues < next_addr w" and "createAlternatingSequence clues w = (Some r, w')"
  shows "r < next_addr w' \<and> length (arrays w' r) = length (arrays w clues)"
proof -
  let ?cs = "arrays w clues"
  have len: "length (filter isPerson ?cs) + length (filter isPlace ?cs) + length (filter isOther ?cs) = length ?cs"
    by (rule partition_length)
  from assms show ?thesis
    unfolding createAlternatingSequence_def
    using len
    by (auto simp: Let_def split_def alloc_def writeArr_def shuffleArray_next shuffleArray_other
        shuffleArray_length insertOthers_next insertOthers_other insertOthers_length
        interleave_length preferPlace_length split: if_splits)
qed

section \<open>Validator, ledger and the choice of a candidate\<close>

lemma violatesConstraints_False:
  assumes "violatesConstraints sc F P = Inr False"
  shows "sc \<noteq> [] \<and> clue.question (sc ! 0) \<notin> F \<and> \<not> placeFirstViolated (sc ! 0) \<and>
         set (pairKeys sc) \<inter> P = {} \<and> followsAlternatingTypes sc"
  using assms
  by (auto simp: violatesConstraints_def list_ex_iff split: list.splits if_splits)

lemma recordConstraints_Inr:
  assumes "recordConstraints sc F P = Inr L'"
  shows "sc \<noteq> [] \<and> L' = (insert (clue.question (sc ! 0)) F, P \<union> set (pairKeys sc))"
  using assms by (auto simp: recordConstraints_def split: list.splits)

lemma recordConstraints_nonempty:
  "sc \<noteq> [] \<Longrightarrow> \<exists>L'. recordConstraints sc F P = Inr L'"
  by (auto simp: recordConstraints_def split: list.splits)

lemma violatesConstraints_nonempty:
  "sc \<noteq> [] \<Longrightarrow> \<exists>b. violatesConstraints sc F P = Inr b"
  by (auto simp: violatesConstraints_def split: list.splits)

lemma pickCandidate_extends: "extends w (snd (pickCandidate rc L w))"
proof -
  obtain alt w1 where c: "createAlternatingSequence rc w = (alt, w1)"
    by (cases "createAlternatingSequence rc w")
  have e1: "extends w w1"
    using createAlternatingSequence_extends [of w rc] c by simp
  have e2: "extends w1 (shuffleArray (fst (alloc xs w1)) (snd (alloc xs w1)))" for xs
    by (simp add: extends_def alloc_def shuffleArray_next shuffleArray_other)
  have e3: "extends w (shuffleArray (fst (alloc xs w1)) (snd (alloc xs w1)))" for xs
    using e1 e2 by (rule extends_trans)
  show ?thesis
    using e1 e3
    by (simp add: pickCandidate_def c Let_def split_def split: sum.splits bool.splits)
qed

lemma pickCandidate_Some_valid:
  assumes "pickCandidate rc L w = (Inr (Some s), w')"
  shows "violatesConstraints (arrays w' s) (fst L) (snd L) = Inr False"
  using assms unfolding pickCandidate_def
  by (auto simp: Let_def split_def split: sum.splits bool.splits option.splits if_splits)

lemma pickCandidate_Some_length:
  assumes "rc < next_addr w" and "pickCandidate rc L w = (Inr (Some s), w')"
  shows "length (arrays w' s) = length (arrays w rc)"
proof -
  obtain alt w1 where c: "createAlternatingSequence rc w = (alt, w1)"
    by (cases "createAlternatingSequence rc w")
  have e1: "extends w w1"
    using createAlternatingSequence_extends [of w rc] c by simp
  have rc1: "arrays w1 rc = arrays w rc"
    using e1 assms(1) by (auto simp: extends_def)
  have alt_len: "length (arrays w1 a) = length (arrays w rc)" if "alt = Some a" for a
    using createAlternatingSequence_result [OF assms(1)] c that by simp
  have sh_len: "length (arrays (shuffleArray (fst (alloc xs w1)) (snd (alloc xs w1)))
                  (fst (alloc xs w1))) = length xs" for xs
    by (simp add: shuffleArray_length) (simp add: alloc_def)
  from assms(2) alt_len show ?thesis
    unfolding pickCandidate_def c
    by (auto simp: Let_def split_def rc1 sh_len
        split: sum.splits bool.splits option.splits if_splits)
qed

section \<open>The attempt loop\<close>

lemma attemptLoop_extends: "extends w (snd (attemptLoop rc fc g a L w))"
proof (induction rc fc g a L w rule: attemptLoop.induct)
  case (1 rc fc g a L w)
  obtain r w1 where p: "pickCandidate rc L w = (r, w1)"
    by (cases "pickCandidate rc L w")
  have e: "extends w w1"
    using pickCandidate_extends [of w rc L] p by simp
  show ?case
  proof (cases "a < maxAttempts")
    case False
    then show ?thesis
      by (simp add: attemptLoop.simps [of rc fc g a L w] extends_refl)
  next
    case True
    show ?thesis
    proof (cases r)
      case (Inl err)
      with True p e show ?thesis
        by (simp add: attemptLoop.simps [of rc fc g a L w])
    next
      case (Inr cand)
      show ?thesis
      proof (cases cand)
        case None
        have "extends w1 (snd (attemptLoop rc fc g (a + 1) L w1))"
          using "1.IH" [OF True p [symmetric] Inr None] .
        with e have "extends w (snd (attemptLoop rc fc g (a + 1) L w1))"
          by (rule extends_trans)
        with True p Inr None show ?thesis
          by (simp add: attemptLoop.simps [of rc fc g a L w])
      next
        case (Some s)
        with True p Inr e show ?thesis
          by (simp add: attemptLoop.simps [of rc fc g a L w] split: sum.splits)
      qed
    qed
  qed
qed

lemma attemptLoop_Some:
  assumes "attemptLoop rc fc g a L w = (Inr (Some sq, a', L'), w')"
  shows "\<exists>sc. violatesConstraints sc (fst L) (snd L) = Inr False \<and>
              recordConstraints sc (fst L) (snd L) = Inr L' \<and>
              sq = candidateSequence g sc fc \<and>
              (rc < next_addr w \<longrightarrow> length sc = length (arrays w rc))"
  using assms
proof (induction rc fc g a L w rule: attemptLoop.induct)
  case (1 rc fc g a L w)
  obtain r w1 where p: "pickCandidate rc L w = (r, w1)"
    by (cases "pickCandidate rc L w")
  have e: "extends w w1"
    using pickCandidate_extends [of w rc L] p by simp
  have lt: "a < maxAttempts"
    using "1.prems" by (simp add: attemptLoop.simps [of rc fc g a L w] split: if_splits)
  show ?case
  proof (cases r)
    case (Inl err)
    with lt p "1.prems" show ?thesis
      by (simp add: attemptLoop.simps [of rc fc g a L w])
  next
    case (Inr cand)
    show ?thesis
    proof (cases cand)
      case None
      have same: "rc < next_addr w \<Longrightarrow> rc < next_addr w1 \<and> arrays w1 rc = arrays w rc"
        using e by (auto simp: extends_def)
      have run: "attemptLoop rc fc g (a + 1) L w1 = (Inr (Some sq, a', L'), w')"
        using "1.prems" lt p Inr None by (simp add: attemptLoop.simps [of rc fc g a L w])
      show ?thesis
        using "1.IH" [OF lt p [symmetric] Inr None run] same by auto
    next
      case (Some s)
      have v: "violatesConstraints (arrays w1 s) (fst L) (snd L) = Inr False"
        using pickCandidate_Some_valid p Inr Some by auto
      have len: "rc < next_addr w \<Longrightarrow> length (arrays w1 s) = length (arrays w rc)"
        using pickCandidate_Some_length p Inr Some by auto
      from "1.prems" lt p Inr Some
      have "recordConstraints (arrays w1 s) (fst L) (snd L) = Inr L' \<and>
            sq = candidateSequence g (arrays w1 s) fc"
        by (auto simp: attemptLoop.simps [of rc fc g a L w] split: sum.splits)
      with v len show ?thesis by blast
    qed
  qed
qed

lemma attemptLoop_attempts:
  assumes "attemptLoop rc fc g a L w = (Inr (sq, a', L'), w')" and "a \<le> maxAttempts"
  shows "a' \<le> maxAttempts \<and> (sq = None \<longrightarrow> a' = maxAttempts)"
  using assms
proof (induction rc fc g a L w rule: attemptLoop.induct)
  case (1 rc fc g a L w)
  obtain r w1 where p: "pickCandidate rc L w = (r, w1)"
    by (cases "pickCandidate rc L w")
  show ?case
  proof (cases "a < maxAttempts")
    case False
    with "1.prems" show ?thesis
      by (auto simp: attemptLoop.simps [of rc fc g a L w])
  next
    case True
    show ?thesis
    proof (cases r)
      case (Inl err)
      with True p "1.prems"(1) show ?thesis
        by (simp add: attemptLoop.simps [of rc fc g a L w])
    next
      case (Inr cand)
      show ?thesis
      proof (cases cand)
        case None
        have run: "attemptLoop rc fc g (a + 1) L w1 = (Inr (sq, a', L'), w')"
          using "1.prems"(1) True p Inr None by (simp add: attemptLoop.simps [of rc fc g a L w])
        have "a + 1 \<le> maxAttempts" using True by simp
        from "1.IH" [OF True p [symmetric] Inr None run this] show ?thesis .
      next
        case (Some s)
        from "1.prems"(1) True p Inr Some show ?thesis
          by (auto simp: attemptLoop.simps [of rc fc g a L w] split: sum.splits)
      qed
    qed
  qed
qed

section \<open>Materialized sequences\<close>

lemma candidateSequence_length: "length (candidateSequence g sc fc) = length sc + 1"
  by (simp add: candidateSequence_def)

lemma candidateSequence_nth:
  "i < length sc \<Longrightarrow> candidateSequence g sc fc ! i = stepAt g sc fc i"
  by (simp add: candidateSequence_def nth_append)

lemma candidateSequence_last: "last (candidateSequence g sc fc) = finalStep sc fc"
  by (simp add: candidateSequence_def)

lemma candidateSequence_final:
  "candidateSequence g sc fc ! length sc = finalStep sc fc"
  by (simp add: candidateSequence_def nth_append)

lemma stepAt_question: "step.question (stepAt g sc fc i) = clue.question (sc ! i)"
  by (simp add: stepAt_def Let_def)

lemma candidateSequence_questions:
  "map step.question (butlast (candidateSequence g sc fc)) = map clue.question sc"
proof -
  have "butlast (candidateSequence g sc fc) = map (stepAt g sc fc) [0..<length sc]"
    by (simp add: candidateSequence_def butlast_append)
  then show ?thesis
    by (auto intro!: nth_equalityI simp: stepAt_question)
qed

lemma candidateSequence_first:
  "sc \<noteq> [] \<Longrightarrow> step.question (candidateSequence g sc fc ! 0) = clue.question (sc ! 0)"
  by (simp add: candidateSequence_nth stepAt_question)

lemma pairKeys_zip:
  "pairKeys sc =
     map (\<lambda>(a, b). pairKey a b) (zip (map clue.question sc) (tl (map clue.question sc)))"
  by (rule nth_equalityI) (auto simp: pairKeys_def nth_tl)

lemma adjacentQuestions_candidateSequence:
  "adjacentQuestions (candidateSequence g sc fc) =
     zip (map clue.question sc) (tl (map clue.question sc))"
  by (simp add: adjacentQuestions_def candidateSequence_questions Let_def)

lemma adjacent_pairKey:
  "(a, b) \<in> set (adjacentQuestions (candidateSequence g sc fc)) \<Longrightarrow>
     pairKey a b \<in> set (pairKeys sc)"
  by (force simp: adjacentQuestions_candidateSequence pairKeys_zip)

section \<open>The group loop keeps the invariants\<close>

lemma committed_step:
  assumes c: "committed fc m L"
    and v: "violatesConstraints sc (fst L) (snd L) = Inr False"
    and r: "recordConstraints sc (fst L) (snd L) = Inr L'"
  shows "committed fc (m(g \<mapsto> candidateSequence g sc fc)) L'"
proof -
  from recordConstraints_Inr [OF r]
  have ne: "sc \<noteq> []"
    and L': "L' = (insert (clue.question (sc ! 0)) (fst L), snd L \<union> set (pairKeys sc))"
    by auto
  show ?thesis
    unfolding committed_def
  proof (intro allI impI)
    fix k s
    assume "(m(g \<mapsto> candidateSequence g sc fc)) k = Some s"
    then consider "k = g" "s = candidateSequence g sc fc" | "k \<noteq> g" "m k = Some s"
      by (auto split: if_splits)
    then show "\<exists>sc. sc \<noteq> [] \<and> s = candidateSequence k sc fc \<and>
                 clue.question (sc ! 0) \<in> fst L' \<and> set (pairKeys sc) \<subseteq> snd L'"
    proof cases
      case 1
      with ne L' show ?thesis by auto
    next
      case 2
      with c obtain sc' where "sc' \<noteq> []" "s = candidateSequence k sc' fc"
        "clue.question (sc' ! 0) \<in> fst L" "set (pairKeys sc') \<subseteq> snd L"
        unfolding committed_def by blast
      with L' show ?thesis by auto
    qed
  qed
qed

lemma separated_new:
  assumes c: "committed fc m L"
    and v: "violatesConstraints sc (fst L) (snd L) = Inr False"
    and old: "m k = Some s"
  shows "step.question (s ! 0) \<noteq> step.question (candidateSequence g sc fc ! 0) \<and>
         set (adjacentQuestions s) \<inter> set (adjacentQuestions (candidateSequence g sc fc)) = {}"
proof -
  from violatesConstraints_False [OF v]
  have ne: "sc \<noteq> []" and first: "clue.question (sc ! 0) \<notin> fst L"
    and pairs: "set (pairKeys sc) \<inter> snd L = {}"
    by auto
  from c old obtain sc' where ne': "sc' \<noteq> []" and s: "s = candidateSequence k sc' fc"
    and first': "clue.question (sc' ! 0) \<in> fst L" and pairs': "set (pairKeys sc') \<subseteq> snd L"
    unfolding committed_def by blast
  have "step.question (s ! 0) \<noteq> step.question (candidateSequence g sc fc ! 0)"
    using first first' ne ne' by (auto simp: s candidateSequence_first)
  moreover have "set (adjacentQuestions s) \<inter> set (adjacentQuestions (candidateSequence g sc fc)) = {}"
  proof (rule ccontr)
    assume "set (adjacentQuestions s) \<inter> set (adjacentQuestions (candidateSequence g sc fc)) \<noteq> {}"
    then obtain a b where "(a, b) \<in> set (adjacentQuestions (candidateSequence k sc' fc))"
      and "(a, b) \<in> set (adjacentQuestions (candidateSequence g sc fc))"
      unfolding s by auto
    then have "pairKey a b \<in> set (pairKeys sc')" and "pairKey a b \<in> set (pairKeys sc)"
      by (auto dest: adjacent_pairKey)
    with pairs pairs' show False by auto
  qed
  ultimately show ?thesis ..
qed

lemma separated_step:
  assumes c: "committed fc m L" and sep: "separated m"
    and v: "violatesConstraints sc (fst L) (snd L) = Inr False"
    and fresh: "m g = None"
  shows "separated (m(g \<mapsto> candidateSequence g sc fc))"
  unfolding separated_def
proof (intro allI impI)
  fix k k' s s'
  let ?m = "m(g \<mapsto> candidateSequence g sc fc)"
  assume a: "?m k = Some s \<and> ?m k' = Some s' \<and> k \<noteq> k'"
  show "step.question (s ! 0) \<noteq> step.question (s' ! 0) \<and>
        set (adjacentQuestions s) \<inter> set (adjacentQuestions s') = {}"
  proof (cases "k = g")
    case True
    with a have "s = candidateSequence g sc fc" and "m k' = Some s'" by auto
    with separated_new [OF c v, of k' s' g] show ?thesis by auto
  next
    case kg: False
    show ?thesis
    proof (cases "k' = g")
      case True
      with a kg have "s' = candidateSequence g sc fc" and "m k = Some s" by auto
      with separated_new [OF c v, of k s g] show ?thesis by auto
    next
      case False
      with a kg have "m k = Some s" "m k' = Some s'" "k \<noteq> k'" by auto
      with sep show ?thesis unfolding separated_def by blast
    qed
  qed
qed

lemma groupLoop_invariant:
  assumes "groupLoop rc fc N g m L w = (Inr m', w')"
    and "committed fc m L" and "separated m" and "dom m = {1..<g}" and "g \<le> N + 1"
    and "1 \<le> g"
  shows "separated m' \<and> dom m' = {1..N} \<and> (\<exists>L'. committed fc m' L') \<and>
         (rc < next_addr w \<and> allLength (length (arrays w rc) + 1) m \<longrightarrow>
            allLength (length (arrays w rc) + 1) m')"
  using assms
proof (induction rc fc N g m L w rule: groupLoop.induct)
  case (1 rc fc N g m L w)
  show ?case
  proof (cases "g \<le> N")
    case False
    with "1.prems" have "g = N + 1" by simp
    moreover have "m' = m"
      using "1.prems"(1) False by (simp add: groupLoop.simps [of rc fc N g m L w])
    moreover have "\<exists>L'. committed fc m L'"
      using "1.prems"(2) by blast
    ultimately show ?thesis
      using "1.prems"(3,4) by (simp add: atLeastLessThanSuc_atLeastAtMost)
  next
    case True
    obtain r w1 where al: "attemptLoop rc fc g 0 L w = (r, w1)"
      by (cases "attemptLoop rc fc g 0 L w")
    have e: "extends w w1"
      using attemptLoop_extends [of w rc fc g 0 L] al by simp
    from "1.prems"(1) True al obtain sq a L1 where r: "r = Inr (Some sq, a, L1)"
      by (auto simp: groupLoop.simps [of rc fc N g m L w] split: sum.splits option.splits)
    have run: "groupLoop rc fc N (g + 1) (m(g \<mapsto> sq)) L1 w1 = (Inr m', w')"
      using "1.prems"(1) True al r by (simp add: groupLoop.simps [of rc fc N g m L w])
    from attemptLoop_Some [of rc fc g 0 L w sq a L1 w1] al r
    obtain sc where v: "violatesConstraints sc (fst L) (snd L) = Inr False"
      and rec: "recordConstraints sc (fst L) (snd L) = Inr L1"
      and sq: "sq = candidateSequence g sc fc"
      and len: "rc < next_addr w \<longrightarrow> length sc = length (arrays w rc)"
      by auto
    have fresh: "m g = None"
      using "1.prems"(4) by (auto simp: domIff [symmetric])
    have c1: "committed fc (m(g \<mapsto> sq)) L1"
      unfolding sq by (rule committed_step [OF "1.prems"(2) v rec])
    have s1: "separated (m(g \<mapsto> sq))"
      unfolding sq by (rule separated_step [OF "1.prems"(2,3) v fresh])
    have d1: "dom (m(g \<mapsto> sq)) = {1..<g + 1}"
      using "1.prems"(4,6) by auto
    have g1: "g + 1 \<le> N + 1" "1 \<le> g + 1" using True by simp_all
    note IH = "1.IH" [OF True al [symmetric] r refl refl refl run c1 s1 d1 g1]
    have same: "rc < next_addr w \<Longrightarrow> rc < next_addr w1 \<and> arrays w1 rc = arrays w rc"
      using e by (auto simp: extends_def)
    have al1: "allLength (length (arrays w rc) + 1) (m(g \<mapsto> sq))"
      if "rc < next_addr w" "allLength (length (arrays w rc) + 1) m"
      using that len by (auto simp: allLength_def sq candidateSequence_length)
    show ?thesis
    proof (intro conjI impI)
      show "separated m'" "dom m' = {1..N}" "\<exists>L'. committed fc m' L'"
        using IH by blast+
    next
      assume a: "rc < next_addr w \<and> allLength (length (arrays w rc) + 1) m"
      then have "rc < next_addr w1 \<and> allLength (length (arrays w1 rc) + 1) (m(g \<mapsto> sq))"
        using same al1 by simp
      with IH have "allLength (length (arrays w1 rc) + 1) m'" by blast
      with a same show "allLength (length (arrays w rc) + 1) m'" by simp
    qed
  qed
qed

section \<open>The whole run\<close>

lemma groupLoop_extends: "extends w (snd (groupLoop rc fc N g m L w))"
proof (induction rc fc N g m L w rule: groupLoop.induct)
  case (1 rc fc N g m L w)
  obtain r w1 where al: "attemptLoop rc fc g 0 L w = (r, w1)"
    by (cases "attemptLoop rc fc g 0 L w")
  have e: "extends w w1"
    using attemptLoop_extends [of w rc fc g 0 L] al by simp
  show ?case
  proof (cases "g \<le> N")
    case False
    then show ?thesis
      by (simp add: groupLoop.simps [of rc fc N g m L w] extends_refl)
  next
    case True
    show ?thesis
    proof (cases r)
      case (Inl err)
      with True al e show ?thesis
        by (simp add: groupLoop.simps [of rc fc N g m L w])
    next
      case (Inr res)
      obtain sq a L1 where res: "res = (sq, a, L1)"
        by (cases res)
      show ?thesis
      proof (cases sq)
        case None
        with True al e Inr res show ?thesis
          by (simp add: groupLoop.simps [of rc fc N g m L w])
      next
        case (Some s)
        have r: "r = Inr (Some s, a, L1)"
          using Inr res Some by simp
        have "extends w1 (snd (groupLoop rc fc N (g + 1) (m(g \<mapsto> s)) L1 w1))"
          by (rule "1.IH" [OF True al [symmetric] r refl refl refl])
        with e have "extends w (snd (groupLoop rc fc N (g + 1) (m(g \<mapsto> s)) L1 w1))"
          by (rule extends_trans)
        with True al r show ?thesis
          by (simp add: groupLoop.simps [of rc fc N g m L w])
      qed
    qed
  qed
qed

lemma generateHuntSequences_extends: "extends w (snd (generateHuntSequences clues n w))"
proof (cases "length (arrays w clues) < 2")
  case True
  then show ?thesis
    by (simp add: generateHuntSequences_def extends_refl)
next
  case False
  have "extends w (snd (alloc (butlast (arrays w clues)) w))"
    by (rule alloc_extends)
  moreover have "extends (snd (alloc xs w)) (snd (groupLoop (fst (alloc xs w)) fc n 1 Map.empty ({}, {})
      (snd (alloc xs w))))" for xs fc
    by (rule groupLoop_extends)
  ultimately show ?thesis
    using False
    by (auto simp: generateHuntSequences_def Let_def split_def intro: extends_trans)
qed

lemma generateHuntSequences_Inr:
  assumes "fst (generateHuntSequences clues n w) = Inr m"
  shows "2 \<le> length (arrays w clues) \<and>
         fst (groupLoop (next_addr w) (last (arrays w clues)) n 1 Map.empty ({}, {})
               (snd (alloc (butlast (arrays w clues)) w))) = Inr m"
proof -
  have two: "2 \<le> length (arrays w clues)"
    using assms by (auto simp: generateHuntSequences_def split: if_splits)
  then have "arrays w clues \<noteq> []" by auto
  then have "arrays w clues ! (length (arrays w clues) - 1) = last (arrays w clues)"
    by (simp add: last_conv_nth)
  with assms two show ?thesis
    by (simp add: generateHuntSequences_def Let_def split_def alloc_fst)
qed

lemma generate_success:
  assumes "fst (generateHuntSequences clues n w) = Inr m"
  shows "2 \<le> length (arrays w clues) \<and> separated m \<and> dom m = {1..n} \<and>
         (\<exists>L. committed (last (arrays w clues)) m L) \<and>
         allLength (length (arrays w clues)) m"
proof -
  let ?cs = "arrays w clues"
  let ?w1 = "snd (alloc (butlast ?cs) w)"
  let ?rc = "next_addr w"
  from generateHuntSequences_Inr [OF assms]
  have two: "2 \<le> length ?cs"
    and run: "fst (groupLoop ?rc (last ?cs) n 1 Map.empty ({}, {}) ?w1) = Inr m"
    by auto
  obtain w' where run': "groupLoop ?rc (last ?cs) n 1 Map.empty ({}, {}) ?w1 = (Inr m, w')"
    using run by (cases "groupLoop ?rc (last ?cs) n 1 Map.empty ({}, {}) ?w1") auto
  have c0: "committed (last ?cs) Map.empty ({}, {})"
    by (simp add: committed_def)
  have s0: "separated Map.empty"
    by (simp add: separated_def)
  have d0: "dom (Map.empty :: nat \<rightharpoonup> step list) = {1..<1}"
    by simp
  have rc: "?rc < next_addr ?w1" and arr: "arrays ?w1 ?rc = butlast ?cs"
    by (simp_all add: alloc_def)
  have len: "length (arrays ?w1 ?rc) + 1 = length ?cs"
    using two by (simp add: arr)
  have a0: "allLength (length (arrays ?w1 ?rc) + 1) Map.empty"
    by (simp add: allLength_def)
  from groupLoop_invariant [OF run' c0 s0 d0] rc a0 len two
  show ?thesis by auto
qed

section \<open>Pools with a single randomizable clue; single steps of the loops\<close>

lemma createAlternatingSequence_single:
  assumes "arrays w rc = [c]" and "rc < next_addr w"
  shows "fst (createAlternatingSequence rc w) = None"
  using assms
  by (cases "isPlace c")
     (auto simp: createAlternatingSequence_def Let_def split_def alloc_def
       dest: not_person_and_place)

lemma violatesConstraints_single:
  "violatesConstraints [c] F P = Inr (clue.question c \<in> F \<or> placeFirstViolated c)"
  by (simp add: violatesConstraints_def pairKeys_def followsAlternatingTypes_def Let_def)

lemma pickCandidate_single:
  assumes "arrays w rc = [c]" and "rc < next_addr w"
  shows "\<exists>w1 s. extends w w1 \<and> arrays w1 s = [c] \<and>
           pickCandidate rc L w =
             (Inr (if clue.question c \<in> fst L \<or> placeFirstViolated c then None else Some s), w1)"
proof -
  obtain alt w1 where cas: "createAlternatingSequence rc w = (alt, w1)"
    by (cases "createAlternatingSequence rc w")
  have alt: "alt = None"
    using createAlternatingSequence_single [OF assms] cas by simp
  have e1: "extends w w1"
    using createAlternatingSequence_extends [of w rc] cas by simp
  have rc1: "arrays w1 rc = [c]"
    using e1 assms by (simp add: extends_def)
  let ?s = "next_addr w1"
  let ?w2 = "snd (alloc [c] w1)"
  let ?w3 = "shuffleArray ?s ?w2"
  have a2: "arrays ?w2 ?s = [c]"
    by (simp add: alloc_def)
  have w3: "?w3 = ?w2"
    by (simp add: shuffleArray_def a2)
  have e3: "extends w ?w3"
    unfolding w3 using e1 alloc_extends by (rule extends_trans)
  have "pickCandidate rc L w =
          (Inr (if clue.question c \<in> fst L \<or> placeFirstViolated c then None else Some ?s), ?w3)"
    by (simp add: pickCandidate_def cas alt rc1 Let_def split_def alloc_fst w3 a2
        violatesConstraints_single)
  with e3 a2 w3 show ?thesis by metis
qed

lemma attemptLoop_exhausts:
  assumes "arrays w rc = [c]" and "rc < next_addr w" and "placeFirstViolated c"
    and "a \<le> maxAttempts"
  shows "\<exists>w'. attemptLoop rc fc g a L w = (Inr (None, maxAttempts, L), w')"
  using assms
proof (induction "maxAttempts - a" arbitrary: a w)
  case 0
  then have "a = maxAttempts" by simp
  then show ?case
    by (simp add: attemptLoop.simps [of rc fc g maxAttempts L w])
next
  case (Suc d)
  then have lt: "a < maxAttempts" by simp
  from pickCandidate_single [OF Suc.prems(1,2), of L] Suc.prems(3)
  obtain w1 where e: "extends w w1" and p: "pickCandidate rc L w = (Inr None, w1)"
    by auto
  have "arrays w1 rc = [c]" "rc < next_addr w1"
    using e Suc.prems(1,2) by (auto simp: extends_def)
  moreover have "d = maxAttempts - (a + 1)" "a + 1 \<le> maxAttempts"
    using Suc.hyps(2) lt by simp_all
  ultimately obtain w' where
    "attemptLoop rc fc g (a + 1) L w1 = (Inr (None, maxAttempts, L), w')"
    using Suc.hyps(1) [of "a + 1" w1] Suc.prems(3) by blast
  with lt p show ?case
    by (simp add: attemptLoop.simps [of rc fc g a L w])
qed

lemma attemptLoop_commit:
  assumes "a < maxAttempts" and "pickCandidate rc L w = (Inr (Some s), w1)"
    and "arrays w1 s \<noteq> []"
  shows "attemptLoop rc fc g a L w =
           (Inr (Some (candidateSequence g (arrays w1 s) fc), a + 1,
                 (insert (clue.question (arrays w1 s ! 0)) (fst L),
                  snd L \<union> set (pairKeys (arrays w1 s)))), w1)"
  using assms
  by (simp add: attemptLoop.simps [of rc fc g a L w] recordConstraints_def nth_Cons'
      split: list.splits)

lemma groupLoop_step:
  assumes "g \<le> N" and "attemptLoop rc fc g 0 L w = (Inr (Some sq, a, L'), w1)"
  shows "groupLoop rc fc N g m L w = groupLoop rc fc N (g + 1) (m(g \<mapsto> sq)) L' w1"
  using assms by (simp add: groupLoop.simps [of rc fc N g m L w])

lemma groupLoop_exhausted:
  assumes "g \<le> N" and "attemptLoop rc fc g 0 L w = (Inr (None, a, L'), w1)"
  shows "groupLoop rc fc N g m L w = (Inl (Error (exhaustedMessage g)), w1)"
  using assms by (simp add: groupLoop.simps [of rc fc N g m L w])

lemma groupLoop_done:
  assumes "N < g"
  shows "groupLoop rc fc N g m L w = (Inr m, w)"
  using assms by (simp add: groupLoop.simps [of rc fc N g m L w])

section \<open>No TypeError on a non-empty pool\<close>

lemma violatesConstraints_Inl: "violatesConstraints sc F P = Inl e \<Longrightarrow> sc = []"
  by (auto simp: violatesConstraints_def split: list.splits)

lemma pickCandidate_no_error:
  assumes "rc < next_addr w" and "arrays w rc \<noteq> []"
  shows "fst (pickCandidate rc L w) \<noteq> Inl e"
proof -
  obtain alt w1 where c: "createAlternatingSequence rc w = (alt, w1)"
    by (cases "createAlternatingSequence rc w")
  have e1: "extends w w1"
    using createAlternatingSequence_extends [of w rc] c by simp
  have rc1: "arrays w1 rc = arrays w rc"
    using e1 assms(1) by (auto simp: extends_def)
  have alt_ne: "arrays w1 a \<noteq> []" if "alt = Some a" for a
    using createAlternatingSequence_result [OF assms(1)] c that assms(2) by fastforce
  have sh_len: "length (arrays (shuffleArray (fst (alloc xs w1)) (snd (alloc xs w1)))
                  (fst (alloc xs w1))) = length xs" for xs
    by (simp add: shuffleArray_length) (simp add: alloc_def)
  have sh_ne: "arrays (shuffleArray (fst (alloc (arrays w rc) w1)) (snd (alloc (arrays w rc) w1)))
                  (fst (alloc (arrays w rc) w1)) \<noteq> []"
    using sh_len [of "arrays w rc"] assms(2) by auto
  show ?thesis
    using alt_ne sh_ne
    by (auto simp: pickCandidate_def c rc1 Let_def split_def
        split: sum.splits bool.splits option.splits dest!: violatesConstraints_Inl)
qed

lemma attemptLoop_no_error:
  assumes "rc < next_addr w" and "arrays w rc \<noteq> []"
  shows "fst (attemptLoop rc fc g a L w) \<noteq> Inl e"
  using assms
proof (induction rc fc g a L w rule: attemptLoop.induct)
  case (1 rc fc g a L w)
  obtain r w1 where p: "pickCandidate rc L w = (r, w1)"
    by (cases "pickCandidate rc L w")
  have e: "extends w w1"
    using pickCandidate_extends [of w rc L] p by simp
  have r_ok: "r \<noteq> Inl e'" for e'
    using pickCandidate_no_error [OF "1.prems", of L e'] p by simp
  show ?case
  proof (cases "a < maxAttempts")
    case False
    then show ?thesis
      by (simp add: attemptLoop.simps [of rc fc g a L w])
  next
    case True
    show ?thesis
    proof (cases r)
      case (Inl err)
      with r_ok [of err] show ?thesis by simp
    next
      case (Inr cand)
      show ?thesis
      proof (cases cand)
        case None
        have "rc < next_addr w1" "arrays w1 rc \<noteq> []"
          using e "1.prems" by (auto simp: extends_def)
        from "1.IH" [OF True p [symmetric] Inr None this]
        show ?thesis
          using True p Inr None by (simp add: attemptLoop.simps [of rc fc g a L w])
      next
        case (Some s)
        have "violatesConstraints (arrays w1 s) (fst L) (snd L) = Inr False"
          using pickCandidate_Some_valid p Inr Some by auto
        then have "arrays w1 s \<noteq> []"
          by (auto dest: violatesConstraints_False)
        then show ?thesis
          using True p Inr Some
          by (auto simp: attemptLoop.simps [of rc fc g a L w] recordConstraints_def
              split: list.splits)
      qed
    qed
  qed
qed

lemma groupLoop_Inl:
  assumes "groupLoop rc fc N g m L w = (Inl e, w')"
    and "rc < next_addr w" and "arrays w rc \<noteq> []"
  shows "\<exists>k. g \<le> k \<and> k \<le> N \<and> e = Error (exhaustedMessage k)"
  using assms
proof (induction rc fc N g m L w rule: groupLoop.induct)
  case (1 rc fc N g m L w)
  obtain r w1 where al: "attemptLoop rc fc g 0 L w = (r, w1)"
    by (cases "attemptLoop rc fc g 0 L w")
  have e: "extends w w1"
    using attemptLoop_extends [of w rc fc g 0 L] al by simp
  have le: "g \<le> N"
    using "1.prems"(1) by (simp add: groupLoop.simps [of rc fc N g m L w] split: if_splits)
  have "r \<noteq> Inl e'" for e'
    using attemptLoop_no_error [OF "1.prems"(2,3), of fc g 0 L e'] al by simp
  then obtain sq a L1 where r: "r = Inr (sq, a, L1)"
    by (cases r) auto
  show ?case
  proof (cases sq)
    case None
    with "1.prems"(1) le al r have "e = Error (exhaustedMessage g)"
      by (simp add: groupLoop.simps [of rc fc N g m L w])
    with le show ?thesis by auto
  next
    case (Some s)
    have r': "r = Inr (Some s, a, L1)"
      using r Some by simp
    have run: "groupLoop rc fc N (g + 1) (m(g \<mapsto> s)) L1 w1 = (Inl e, w')"
      using "1.prems"(1) le al r' by (simp add: groupLoop.simps [of rc fc N g m L w])
    have "rc < next_addr w1" "arrays w1 rc \<noteq> []"
      using e "1.prems"(2,3) by (auto simp: extends_def)
    from "1.IH" [OF le al [symmetric] r' refl refl refl run this]
    obtain k where "g + 1 \<le> k" "k \<le> N" "e = Error (exhaustedMessage k)"
      by blast
    then have "g \<le> k \<and> k \<le> N \<and> e = Error (exhaustedMessage k)"
      by simp
    then show ?thesis ..
  qed
qed

lemma generateHuntSequences_Inl:
  assumes "fst (generateHuntSequences clues n w) = Inl e"
    and "2 \<le> length (arrays w clues)"
  shows "\<exists>k\<in>{1..n}. e = Error (exhaustedMessage k)"
proof -
  let ?cs = "arrays w clues"
  let ?w1 = "snd (alloc (butlast ?cs) w)"
  let ?rc = "next_addr w"
  let ?fc = "?cs ! (length ?cs - 1)"
  have run: "fst (groupLoop ?rc ?fc n 1 Map.empty ({}, {}) ?w1) = Inl e"
    using assms by (simp add: generateHuntSequences_def Let_def split_def alloc_fst)
  then obtain w' where run': "groupLoop ?rc ?fc n 1 Map.empty ({}, {}) ?w1 = (Inl e, w')"
    by (cases "groupLoop ?rc ?fc n 1 Map.empty ({}, {}) ?w1") auto
  have "length (butlast ?cs) = length ?cs - 1"
    by (rule length_butlast)
  with assms(2) have "0 < length (butlast ?cs)"
    by arith
  then have "butlast ?cs \<noteq> []"
    by (metis length_greater_0_conv)
  then have "?rc < next_addr ?w1" "arrays ?w1 ?rc \<noteq> []"
    by (simp_all add: alloc_def)
  from groupLoop_Inl [OF run' this] show ?thesis by auto
qed

section \<open>Evaluating the examples\<close>

lemma ex_fields:
  "clue.question cluePiano = ''What has keys?''" "clueType cluePiano = Some ''Place''"
  "clue.question clueClock = ''What has a face?''" "clueType clueClock = Some ''Place''"
  "clue.question clueKevin = ''Who created this hunt?''" "clueType clueKevin = Some ''Person''"
  by (simp_all add: cluePiano_def clueClock_def clueKevin_def)

lemmas pick_defs =
  alloc_def pickCandidate_def createAlternatingSequence_def isPerson_def isPlace_def
  isOther_def toLowerCase_def lowerChar_def shuffleArray_def placeFirstViolated_def
  violatesConstraints_def pairKeys_def pairKey_def followsAlternatingTypes_def isTyped_def
  sameTypeAt_def writeArr_def randomInt_def preferPlace_def findPlace.simps Let_def

section \<open>The example run\<close>

lemma ex_pick1: "pickCandidate 1 ({}, {}) exWorld1 = (Inr (Some 5), exWorld2)"
  by (simp add: pick_defs exWorld1_def exWorld2_def ex_fields cong: let_weak_cong)

lemma ex_pick2: "pickCandidate 1 exLedger1 exWorld2 = (Inr (Some 9), exWorld3)"
  by (simp add: pick_defs exWorld2_def exWorld3_def exLedger1_def ex_fields cong: let_weak_cong)

lemma ex_attempt1:
  "attemptLoop 1 clueKevin 1 0 ({}, {}) exWorld1 =
     (Inr (Some (candidateSequence 1 [clueClock, cluePiano] clueKevin), 1, exLedger1), exWorld2)"
proof -
  have "arrays exWorld2 5 = [clueClock, cluePiano]"
    by (simp add: exWorld2_def)
  moreover have "attemptLoop 1 clueKevin 1 0 ({}, {}) exWorld1 =
      (Inr (Some (candidateSequence 1 (arrays exWorld2 5) clueKevin), 0 + 1,
         (insert (clue.question (arrays exWorld2 5 ! 0)) (fst (({}, {}) :: ledger)),
          snd (({}, {}) :: ledger) \<union> set (pairKeys (arrays exWorld2 5)))), exWorld2)"
    by (rule attemptLoop_commit [OF _ ex_pick1]) (simp_all add: maxAttempts_def exWorld2_def)
  ultimately show ?thesis
    by (simp add: exLedger1_def pairKeys_def pairKey_def ex_fields)
qed

lemma ex_attempt2:
  "\<exists>L. attemptLoop 1 clueKevin 2 0 exLedger1 exWorld2 =
     (Inr (Some (candidateSequence 2 [cluePiano, clueClock] clueKevin), 1, L), exWorld3)"
proof -
  have "arrays exWorld3 9 = [cluePiano, clueClock]"
    by (simp add: exWorld3_def)
  moreover have "attemptLoop 1 clueKevin 2 0 exLedger1 exWorld2 =
      (Inr (Some (candidateSequence 2 (arrays exWorld3 9) clueKevin), 0 + 1,
         (insert (clue.question (arrays exWorld3 9 ! 0)) (fst exLedger1),
          snd exLedger1 \<union> set (pairKeys (arrays exWorld3 9)))), exWorld3)"
    by (rule attemptLoop_commit [OF _ ex_pick2]) (simp_all add: maxAttempts_def exWorld3_def)
  ultimately show ?thesis
    by simp
qed

lemma ex_run: "fst (generateHuntSequences 0 2 exWorld) = Inr exSequences"
proof -
  obtain L where a2: "attemptLoop 1 clueKevin 2 0 exLedger1 exWorld2 =
     (Inr (Some (candidateSequence 2 [cluePiano, clueClock] clueKevin), 1, L), exWorld3)"
    using ex_attempt2 by blast
  have "generateHuntSequences 0 2 exWorld =
          groupLoop 1 clueKevin 2 1 Map.empty ({}, {}) exWorld1"
    by (simp add: generateHuntSequences_def exWorld_def exWorld1_def alloc_def numeral_2_eq_2)
  also have "\<dots> = groupLoop 1 clueKevin 2 (1 + 1)
      [1 \<mapsto> candidateSequence 1 [clueClock, cluePiano] clueKevin] exLedger1 exWorld2"
    by (rule groupLoop_step [OF _ ex_attempt1]) simp
  also have "\<dots> = groupLoop 1 clueKevin 2 (2 + 1) exSequences L exWorld3"
    using groupLoop_step [OF _ a2, of 2] by (simp add: exSequences_def numeral_2_eq_2 numeral_3_eq_3)
  also have "\<dots> = (Inr exSequences, exWorld3)"
    by (rule groupLoop_done) simp
  finally show ?thesis by simp
qed

section \<open>Auxiliary facts for the properties\<close>

lemma committed_nonempty:
  "committed fc m L \<Longrightarrow> m k = Some s \<Longrightarrow>
     \<exists>sc. sc \<noteq> [] \<and> s = candidateSequence k sc fc"
  unfolding committed_def by blast

lemma candidateSequence_chain:
  assumes "sc \<noteq> []"
  shows "chainLinked (candidateSequence g sc fc)"
proof -
  let ?s = "candidateSequence g sc fc"
  have len: "length ?s = length sc + 1"
    by (rule candidateSequence_length)
  have numbered: "clueNumber (?s ! i) = i + 1" if "i < length ?s" for i
  proof (cases "i < length sc")
    case True
    then show ?thesis
      by (simp add: candidateSequence_nth stepAt_def Let_def)
  next
    case False
    with that len have "i = length sc" by simp
    then show ?thesis
      by (simp add: candidateSequence_final finalStep_def)
  qed
  have linked: "sublist (step.question (?s ! (i + 1))) (nextClue (?s ! i))"
    if "i < length ?s - 1" for i
  proof -
    from that len have i: "i < length sc" by simp
    show ?thesis
    proof (cases "i + 1 < length sc")
      case True
      then have "i < length sc - 1" by arith
      then have "nextClue (?s ! i) =
          (''Group '' @ showNat g @ '' Clue '' @ showNat (i + 1 + 1) @ ''. '') @
          clue.question (sc ! (i + 1)) @ []"
        using i by (simp add: candidateSequence_nth stepAt_def Let_def)
      moreover have "step.question (?s ! (i + 1)) = clue.question (sc ! (i + 1))"
        using True by (simp add: candidateSequence_nth stepAt_question)
      ultimately show ?thesis
        unfolding sublist_def by metis
    next
      case False
      with i have last: "i + 1 = length sc" by simp
      then have "\<not> i < length sc - 1" by arith
      then have "nextClue (?s ! i) =
          (''Group '' @ showNat g @ '' Clue '' @ showNat (i + 1 + 1) @ ''. '') @
          clue.question fc @ []"
        using i by (simp add: candidateSequence_nth stepAt_def Let_def)
      moreover have "step.question (?s ! (i + 1)) = clue.question fc"
        unfolding last by (simp add: candidateSequence_final finalStep_def)
      ultimately show ?thesis
        unfolding sublist_def by metis
    qed
  qed
  have "nextClue (last ?s) = (showNat (length sc + 2) @ ''. '') @ ''The End'' @ []"
    by (simp add: candidateSequence_last finalStep_def)
  then have final: "sublist ''The End'' (nextClue (last ?s))"
    unfolding sublist_def by blast
  have "?s \<noteq> []"
    using len by auto
  with numbered linked final show ?thesis
    unfolding chainLinked_def by blast
qed

lemma showNat_small:
  "showNat 1 = ''1''" "showNat 2 = ''2''" "showNat 3 = ''3''" "showNat 100 = ''100''"
  "showNat (Suc 0) = ''1''" "showNat (Suc (Suc 0)) = ''2''" "showNat (Suc (Suc (Suc 0))) = ''3''"
  by (simp_all add: showNat.simps)

lemma exhaustedMessage_text:
  "exhaustedMessage g =
     ''Could not generate valid sequence for Group '' @ showNat g @
     '' after 100 attempts. Try using more clues or fewer groups.''"
  by (simp add: exhaustedMessage_def maxAttempts_def showNat_small)

lemma ex_fields2:
  "clue.question clueGuard = ''Who guards the door?''" "clueType clueGuard = Some ''Person''"
  "clue.question clueAnimal = ''What barks?''" "clueType clueAnimal = Some ''Animal''"
  by (simp_all add: clueGuard_def clueAnimal_def)

lemma ex_kinds:
  "placeFirstViolated clueGuard" "placeFirstViolated clueAnimal" "\<not> placeFirstViolated cluePiano"
  "isPerson clueGuard" "isPerson clueKevin" "isPlace cluePiano" "\<not> isPlace clueGuard"
  "\<not> isPlace clueKevin" "\<not> isPerson clueAnimal" "\<not> isPlace clueAnimal" "isOther clueAnimal"
  by (simp_all add: placeFirstViolated_def isPerson_def isPlace_def isOther_def ex_fields ex_fields2
      toLowerCase_def lowerChar_def)

lemma candidateSequence_single:
  "candidateSequence (Suc 0) [c] fc =
     [\<lparr>clueNumber = 1, question = clue.question c,
       location = ''Hide this at/with: '' @ answer c,
       nextClue = ''Group 1 Clue 2. '' @ clue.question fc\<rparr>,
      \<lparr>clueNumber = 2, question = clue.question fc,
       location = ''Hide this at/with: '' @ answer fc,
       nextClue = ''3. The End''\<rparr>]"
  by (simp add: candidateSequence_def stepAt_def finalStep_def showNat_small Let_def)

lemma generate_two_clues:
  assumes "arrays w clues = [c, fc]"
  shows "fst (generateHuntSequences clues 1 w) =
           (if placeFirstViolated c then Inl (Error (exhaustedMessage 1))
            else Inr [1 \<mapsto> candidateSequence 1 [c] fc])"
proof -
  let ?rc = "next_addr w"
  let ?w1 = "snd (alloc [c] w)"
  have gen: "generateHuntSequences clues 1 w = groupLoop ?rc fc 1 1 Map.empty ({}, {}) ?w1"
    by (simp add: generateHuntSequences_def assms Let_def split_def alloc_fst)
  have arr: "arrays ?w1 ?rc = [c]" and rc: "?rc < next_addr ?w1"
    by (simp_all add: alloc_def)
  show ?thesis
  proof (cases "placeFirstViolated c")
    case True
    from attemptLoop_exhausts [OF arr rc True, of 0 fc 1 "({}, {})"]
    obtain w' where "attemptLoop ?rc fc 1 0 ({}, {}) ?w1 = (Inr (None, maxAttempts, ({}, {})), w')"
      by auto
    from groupLoop_exhausted [OF _ this, of 1 Map.empty] True gen
    show ?thesis by simp
  next
    case False
    from pickCandidate_single [OF arr rc, of "({}, {})"] False
    obtain w2 s where s: "arrays w2 s = [c]"
      and p: "pickCandidate ?rc ({}, {}) ?w1 = (Inr (Some s), w2)"
      by auto
    have "0 < maxAttempts" "arrays w2 s \<noteq> []"
      by (simp_all add: maxAttempts_def s)
    from attemptLoop_commit [OF this(1) p this(2), of fc 1]
    obtain L' where a: "attemptLoop ?rc fc 1 0 ({}, {}) ?w1 =
        (Inr (Some (candidateSequence 1 [c] fc), 0 + 1, L'), w2)"
      by (simp add: s)
    have "groupLoop ?rc fc 1 1 Map.empty ({}, {}) ?w1 =
        groupLoop ?rc fc 1 (1 + 1) [1 \<mapsto> candidateSequence 1 [c] fc] L' w2"
      by (rule groupLoop_step [OF _ a]) simp
    also have "\<dots> = (Inr [1 \<mapsto> candidateSequence 1 [c] fc], w2)"
      by (rule groupLoop_done) simp
    finally show ?thesis
      using False gen by simp
  qed
qed

lemma swap_first:
  "\<exists>w'. createAlternatingSequence 0 (swapWorld\<lparr>random_src := src, draws := d\<rparr>) = (Some 4, w') \<and>
     arrays w' 4 ! 0 \<in> {clueGuard, clueKevin}"
proof -
  have "src d mod 2 = 0 \<or> src d mod 2 = 1"
    by arith
  then show ?thesis
  proof
    assume j: "src d mod 2 = 0"
    then have j': "src d mod Suc (Suc 0) = 0"
      by (simp add: numeral_2_eq_2)
    show ?thesis
      by (simp add: pick_defs swapWorld_def ex_fields ex_fields2 j j'
          cong: let_weak_cong)
  next
    assume j: "src d mod 2 = 1"
    then have j': "src d mod Suc (Suc 0) = Suc 0"
      by (simp add: numeral_2_eq_2)
    show ?thesis
      by (simp add: pick_defs swapWorld_def ex_fields ex_fields2 j j'
          cong: let_weak_cong)
  qed
qed

text \<open>A run of the group loop passes through its heads; an error comes from one of them.\<close>

lemma afterCommits_group:
  "afterCommits rc fc n g m L w = Some (k, mk, Lk, wk) \<Longrightarrow> k = g + n"
proof (induction n arbitrary: g m L w)
  case 0
  then show ?case by simp
next
  case (Suc n)
  from Suc.prems obtain sq a L1 w1
    where "afterCommits rc fc n (g + 1) (m(g \<mapsto> sq)) L1 w1 = Some (k, mk, Lk, wk)"
    by (auto split: prod.splits sum.splits option.splits)
  from Suc.IH [OF this] show ?case by simp
qed

lemma afterCommits_groupLoop:
  assumes "afterCommits rc fc n g m L w = Some (k, mk, Lk, wk)" and "k \<le> N + 1"
  shows "groupLoop rc fc N g m L w = groupLoop rc fc N k mk Lk wk"
  using assms
proof (induction n arbitrary: g m L w)
  case 0
  then show ?case by simp
next
  case (Suc n)
  from Suc.prems(1) obtain sq a L1 w1
    where al: "attemptLoop rc fc g 0 L w = (Inr (Some sq, a, L1), w1)"
      and rest: "afterCommits rc fc n (g + 1) (m(g \<mapsto> sq)) L1 w1 = Some (k, mk, Lk, wk)"
    by (auto split: prod.splits sum.splits option.splits)
  have "k = g + 1 + n"
    using afterCommits_group [OF rest] .
  with Suc.prems(2) have le: "g \<le> N" by simp
  have "groupLoop rc fc N g m L w = groupLoop rc fc N (g + 1) (m(g \<mapsto> sq)) L1 w1"
    by (rule groupLoop_step [OF le al])
  also have "\<dots> = groupLoop rc fc N k mk Lk wk"
    by (rule Suc.IH [OF rest Suc.prems(2)])
  finally show ?case .
qed

lemma groupLoop_Inl_head:
  assumes "groupLoop rc fc N g m L w = (Inl e, w')"
    and "rc < next_addr w" and "arrays w rc \<noteq> []"
  shows "\<exists>n mk Lk wk a L'. afterCommits rc fc n g m L w = Some (g + n, mk, Lk, wk) \<and>
           g + n \<le> N \<and>
           attemptLoop rc fc (g + n) 0 Lk wk = (Inr (None, a, L'), w') \<and>
           e = Error (exhaustedMessage (g + n))"
  using assms
proof (induction rc fc N g m L w rule: groupLoop.induct)
  case (1 rc fc N g m L w)
  obtain r w1 where al: "attemptLoop rc fc g 0 L w = (r, w1)"
    by (cases "attemptLoop rc fc g 0 L w")
  have e: "extends w w1"
    using attemptLoop_extends [of w rc fc g 0 L] al by simp
  have le: "g \<le> N"
    using "1.prems"(1) by (simp add: groupLoop.simps [of rc fc N g m L w] split: if_splits)
  have "r \<noteq> Inl e'" for e'
    using attemptLoop_no_error [OF "1.prems"(2,3), of fc g 0 L e'] al by simp
  then obtain sq a L1 where r: "r = Inr (sq, a, L1)"
    by (cases r) auto
  show ?case
  proof (cases sq)
    case None
    with "1.prems"(1) le al r have "e = Error (exhaustedMessage g)" and "w' = w1"
      by (simp_all add: groupLoop.simps [of rc fc N g m L w])
    with le al r None
    have "afterCommits rc fc 0 g m L w = Some (g + 0, m, L, w) \<and> g + 0 \<le> N \<and>
          attemptLoop rc fc (g + 0) 0 L w = (Inr (None, a, L1), w') \<and>
          e = Error (exhaustedMessage (g + 0))"
      by simp
    then show ?thesis by blast
  next
    case (Some s)
    have r': "r = Inr (Some s, a, L1)"
      using r Some by simp
    have run: "groupLoop rc fc N (g + 1) (m(g \<mapsto> s)) L1 w1 = (Inl e, w')"
      using "1.prems"(1) le al r' by (simp add: groupLoop.simps [of rc fc N g m L w])
    have "rc < next_addr w1" "arrays w1 rc \<noteq> []"
      using e "1.prems"(2,3) by (auto simp: extends_def)
    from "1.IH" [OF le al [symmetric] r' refl refl refl run this]
    obtain n mk Lk wk a' L' where
      h: "afterCommits rc fc n (g + 1) (m(g \<mapsto> s)) L1 w1 = Some (g + 1 + n, mk, Lk, wk)"
        "g + 1 + n \<le> N"
        "attemptLoop rc fc (g + 1 + n) 0 Lk wk = (Inr (None, a', L'), w')"
        "e = Error (exhaustedMessage (g + 1 + n))"
      by blast
    have "afterCommits rc fc (Suc n) g m L w = Some (g + Suc n, mk, Lk, wk) \<and>
          g + Suc n \<le> N \<and>
          attemptLoop rc fc (g + Suc n) 0 Lk wk = (Inr (None, a', L'), w') \<and>
          e = Error (exhaustedMessage (g + Suc n))"
      using h al r' by simp
    then show ?thesis by blast
  qed
qed

lemma generateHuntSequences_groupLoop:
  assumes "2 \<le> length (arrays v clues)"
  shows "generateHuntSequences clues N v =
           groupLoop (next_addr v) (last (arrays v clues)) N 1 Map.empty ({}, {})
             (snd (alloc (butlast (arrays v clues)) v))"
proof -
  have "arrays v clues \<noteq> []"
    using assms by auto
  then have "arrays v clues ! (length (arrays v clues) - 1) = last (arrays v clues)"
    by (simp add: last_conv_nth)
  with assms show ?thesis
    by (simp add: generateHuntSequences_def Let_def split_def alloc_fst)
qed

lemma attemptLoop_rejects_all:
  assumes "arrays w rc = [c]" and "rc < next_addr w"
    and "clue.question c \<in> fst L \<or> placeFirstViolated c"
    and "a \<le> maxAttempts"
  shows "\<exists>w'. attemptLoop rc fc g a L w = (Inr (None, maxAttempts, L), w')"
  using assms
proof (induction "maxAttempts - a" arbitrary: a w)
  case 0
  then have "a = maxAttempts" by simp
  then show ?case
    by (simp add: attemptLoop.simps [of rc fc g maxAttempts L w])
next
  case (Suc d)
  then have lt: "a < maxAttempts" by simp
  from pickCandidate_single [OF Suc.prems(1,2), of L] Suc.prems(3)
  obtain w1 where e: "extends w w1" and p: "pickCandidate rc L w = (Inr None, w1)"
    by auto
  have "arrays w1 rc = [c]" "rc < next_addr w1"
    using e Suc.prems(1,2) by (auto simp: extends_def)
  moreover have "d = maxAttempts - (a + 1)" "a + 1 \<le> maxAttempts"
    using Suc.hyps(2) lt by simp_all
  ultimately obtain w' where
    "attemptLoop rc fc g (a + 1) L w1 = (Inr (None, maxAttempts, L), w')"
    using Suc.hyps(1) [of "a + 1" w1] Suc.prems(3) by blast
  with lt p show ?case
    by (simp add: attemptLoop.simps [of rc fc g a L w])
qed

section \<open>Properties of the generator\<close>

text \<open>
  In the statements below a run is \<open>generateHuntSequences clues N w\<close>: the pool is the
  array at address \<open>clues\<close> of the store \<open>w\<close>, which also fixes the random source, so
  a statement for every \<open>w\<close> holds for every outcome of \<open>Math.random\<close>. A run is
  successful when its first component is \<open>Inr allSequences\<close>.
\<close>

subsection \<open>Distinct opening clues\<close>

text \<open>
  C1. For every successful run with \<open>N\<close> groups and every two distinct groups
  \<open>g1\<close>, \<open>g2\<close> in \<open>1..N\<close>, both groups have a non-empty sequence and the question
  of the first step of \<open>g1\<close>'s sequence differs from that of \<open>g2\<close>'s.
\<close>

theorem distinct_first_questions:
  assumes "fst (generateHuntSequences clues N w) = Inr allSequences"
    and "g1 \<in> {1..N}" and "g2 \<in> {1..N}" and "g1 \<noteq> g2"
  shows "\<exists>s1 s2. allSequences g1 = Some s1 \<and> allSequences g2 = Some s2 \<and>
           s1 \<noteq> [] \<and> s2 \<noteq> [] \<and> step.question (s1 ! 0) \<noteq> step.question (s2 ! 0)"
proof -
  from generate_success [OF assms(1)] obtain L
    where sep: "separated allSequences" and d: "dom allSequences = {1..N}"
      and c: "committed (last (arrays w clues)) allSequences L"
    by blast
  from d assms(2,3) obtain s1 s2
    where s: "allSequences g1 = Some s1" "allSequences g2 = Some s2"
    by (metis domD)
  have "s1 \<noteq> []" "s2 \<noteq> []"
    using committed_nonempty [OF c s(1)] committed_nonempty [OF c s(2)]
    by (auto simp: candidateSequence_def)
  moreover have "step.question (s1 ! 0) \<noteq> step.question (s2 ! 0)"
    using sep s assms(4) unfolding separated_def by blast
  ultimately show ?thesis
    using s by blast
qed

text \<open>The run on the README pool with two groups, instantiated at groups 1 and 2.\<close>

theorem distinct_first_questions_witness:
  "fst (generateHuntSequences 0 2 exWorld) = Inr exSequences \<and>
   (1::nat) \<in> {1..2} \<and> (2::nat) \<in> {1..2} \<and> (1::nat) \<noteq> 2 \<and>
   (\<exists>s1 s2. exSequences 1 = Some s1 \<and> exSequences 2 = Some s2 \<and> s1 \<noteq> [] \<and> s2 \<noteq> [] \<and>
      step.question (s1 ! 0) \<noteq> step.question (s2 ! 0))"
  using distinct_first_questions [OF ex_run, of 1 2] ex_run by simp

subsection \<open>No shared adjacent pair\<close>

text \<open>
  C2. For every successful run and every two distinct groups, no ordered pair of question
  texts is adjacent in the randomizable portions (the steps before the final clue's step)
  of both groups' sequences.
\<close>

theorem no_shared_adjacent_pair:
  assumes "fst (generateHuntSequences clues N w) = Inr allSequences"
    and "g1 \<in> {1..N}" and "g2 \<in> {1..N}" and "g1 \<noteq> g2"
  shows "\<exists>s1 s2. allSequences g1 = Some s1 \<and> allSequences g2 = Some s2 \<and>
           set (adjacentQuestions s1) \<inter> set (adjacentQuestions s2) = {}"
proof -
  from generate_success [OF assms(1)]
  have sep: "separated allSequences" and d: "dom allSequences = {1..N}"
    by blast+
  from d assms(2,3) obtain s1 s2
    where s: "allSequences g1 = Some s1" "allSequences g2 = Some s2"
    by (metis domD)
  have "set (adjacentQuestions s1) \<inter> set (adjacentQuestions s2) = {}"
    using sep s assms(4) unfolding separated_def by blast
  with s show ?thesis by blast
qed

theorem no_shared_adjacent_pair_witness:
  "fst (generateHuntSequences 0 2 exWorld) = Inr exSequences \<and>
   (1::nat) \<in> {1..2} \<and> (2::nat) \<in> {1..2} \<and> (1::nat) \<noteq> 2 \<and>
   (\<exists>s1 s2. exSequences 1 = Some s1 \<and> exSequences 2 = Some s2 \<and>
      set (adjacentQuestions s1) \<inter> set (adjacentQuestions s2) = {})"
  using no_shared_adjacent_pair [OF ex_run, of 1 2] ex_run by simp

subsection \<open>Length and shared final step\<close>

text \<open>
  C3. For every successful run, the pool has at least two clues, and every group in
  \<open>1..N\<close> has a sequence whose length is the size of the randomizable pool plus one,
  that is, the size of the pool, and whose last step carries the question of the last clue
  of the pool.
\<close>

theorem sequence_length_and_final_step:
  assumes "fst (generateHuntSequences clues N w) = Inr allSequences" and "g \<in> {1..N}"
  shows "2 \<le> length (arrays w clues) \<and>
         (\<exists>s. allSequences g = Some s \<and>
              length s = length (butlast (arrays w clues)) + 1 \<and>
              length s = length (arrays w clues) \<and>
              step.question (last s) = clue.question (last (arrays w clues)))"
proof -
  from generate_success [OF assms(1)] obtain L
    where two: "2 \<le> length (arrays w clues)" and d: "dom allSequences = {1..N}"
      and c: "committed (last (arrays w clues)) allSequences L"
      and al: "allLength (length (arrays w clues)) allSequences"
    by blast
  from d assms(2) obtain s where s: "allSequences g = Some s"
    by (metis domD)
  have len: "length s = length (arrays w clues)"
    using al s unfolding allLength_def by blast
  from committed_nonempty [OF c s] obtain sc
    where "s = candidateSequence g sc (last (arrays w clues))"
    by blast
  then have "step.question (last s) = clue.question (last (arrays w clues))"
    by (simp add: candidateSequence_last finalStep_def)
  with two s len show ?thesis by simp
qed

theorem sequence_length_and_final_step_witness:
  "fst (generateHuntSequences 0 2 exWorld) = Inr exSequences \<and> (2::nat) \<in> {1..2} \<and>
   (\<exists>s. exSequences 2 = Some s \<and> length s = length (arrays exWorld 0) \<and>
      step.question (last s) = clue.question (last (arrays exWorld 0)))"
  using sequence_length_and_final_step [OF ex_run, of 2] ex_run by auto

subsection \<open>What the builder returns first\<close>

text \<open>
  C4. The first entry of every sequence the builder returns should be a Place. The code
  misses this: on the pool of one Place and two Persons the builder returns, for every
  random source, a sequence whose first entry is a Person. The search of the post-pass
  starts at index 0, finds the Place that the interleaving put first and swaps it to the
  second-to-last index.
\<close>

theorem builder_returns_person_first:
  "\<exists>w'. createAlternatingSequence 0 (swapWorld\<lparr>random_src := src, draws := d\<rparr>) =
          (Some 4, w') \<and>
        isPerson (arrays w' 4 ! 0) \<and> \<not> isPlace (arrays w' 4 ! 0)"
  using swap_first [where src = src and d = d] by (auto simp: ex_kinds)

subsection \<open>The Place-first check of the validator\<close>

text \<open>
  C5, as the code has it. The Place-first check accepts a first entry exactly when its
  category is absent, empty or \<open>place\<close> in any letter case. It rejects the candidate
  for every other non-empty category, \<open>person\<close> or unrecognized; when it accepts, the
  verdict is that of the three other rules.
\<close>

theorem place_first_check:
  "(placeFirstViolated c \<longleftrightarrow>
      \<not> (clueType c = None \<or> clueType c = Some [] \<or> isPlace c)) \<and>
   (placeFirstViolated c \<longrightarrow> violatesConstraints (c # rest) F P = Inr True) \<and>
   (\<not> placeFirstViolated c \<longrightarrow>
      violatesConstraints (c # rest) F P =
        Inr (clue.question c \<in> F \<or> list_ex (\<lambda>pair. pair \<in> P) (pairKeys (c # rest)) \<or>
             \<not> followsAlternatingTypes (c # rest)))"
  by (auto simp: placeFirstViolated_def isPlace_def violatesConstraints_def split: option.splits)

theorem place_first_check_witness:
  "placeFirstViolated clueAnimal \<and> violatesConstraints [clueAnimal] {} {} = Inr True \<and>
   \<not> placeFirstViolated cluePiano \<and> violatesConstraints [cluePiano] {} {} = Inr False"
proof -
  have "pairKeys [cluePiano] = []" "followsAlternatingTypes [cluePiano]"
    by (simp_all add: pairKeys_def followsAlternatingTypes_def)
  with place_first_check [of clueAnimal "[]" "{}" "{}"] place_first_check [of cluePiano "[]" "{}" "{}"]
  show ?thesis
    by (simp add: ex_kinds ex_fields)
qed

text \<open>
  A first entry of category \<open>Animal\<close>, neither \<open>person\<close> nor \<open>place\<close>, is rejected
  by the check although no other rule objects: with the category removed the same
  candidate passes.
\<close>

theorem unrecognized_category_rejected:
  "toLowerCase ''Animal'' \<noteq> ''person'' \<and> toLowerCase ''Animal'' \<noteq> ''place'' \<and>
   clueType clueAnimal = Some ''Animal'' \<and>
   placeFirstViolated clueAnimal \<and>
   violatesConstraints [clueAnimal] {} {} = Inr True \<and>
   violatesConstraints [clueAnimal\<lparr>clueType := None\<rparr>] {} {} = Inr False"
  by (simp add: violatesConstraints_def placeFirstViolated_def pairKeys_def
      followsAlternatingTypes_def isTyped_def ex_fields2 toLowerCase_def lowerChar_def)

subsection \<open>A pool of two clues and one group\<close>

text \<open>
  C6, as the code has it. For a pool of the final clue and one other clue and one group,
  the outcome does not depend on the random source. If the other clue's category is
  absent, empty or \<open>place\<close>, the run succeeds with the one two-step sequence written
  below; otherwise the Place-first check rejects all 100 attempts and the run aborts.
\<close>

theorem two_clue_pool_single_group:
  assumes "arrays w clues = [c, fc]"
  shows "fst (generateHuntSequences clues 1 w) =
           (if clueType c = None \<or> clueType c = Some [] \<or> isPlace c then
              Inr [1 \<mapsto>
                [\<lparr>clueNumber = 1, question = clue.question c,
                  location = ''Hide this at/with: '' @ answer c,
                  nextClue = ''Group 1 Clue 2. '' @ clue.question fc\<rparr>,
                 \<lparr>clueNumber = 2, question = clue.question fc,
                  location = ''Hide this at/with: '' @ answer fc,
                  nextClue = ''3. The End''\<rparr>]]
            else
              Inl (Error ''Could not generate valid sequence for Group 1 after 100 attempts. Try using more clues or fewer groups.''))"
proof -
  have "placeFirstViolated c \<longleftrightarrow> \<not> (clueType c = None \<or> clueType c = Some [] \<or> isPlace c)"
    by (auto simp: placeFirstViolated_def isPlace_def split: option.splits)
  then show ?thesis
    using generate_two_clues [OF assms]
    by (simp add: candidateSequence_single exhaustedMessage_text showNat_small)
qed

theorem two_clue_pool_single_group_witness:
  "arrays pianoWorld 0 = [cluePiano, clueKevin] \<and>
   fst (generateHuntSequences 0 1 pianoWorld) =
     Inr [1 \<mapsto>
       [\<lparr>clueNumber = 1, question = ''What has keys?'',
         location = ''Hide this at/with: Piano'',
         nextClue = ''Group 1 Clue 2. Who created this hunt?''\<rparr>,
        \<lparr>clueNumber = 2, question = ''Who created this hunt?'',
         location = ''Hide this at/with: Kevin'',
         nextClue = ''3. The End''\<rparr>]]"
proof -
  have h: "arrays pianoWorld 0 = [cluePiano, clueKevin]"
    by (simp add: pianoWorld_def)
  from two_clue_pool_single_group [OF h] h show ?thesis
    by (simp add: ex_kinds ex_fields) (simp add: cluePiano_def clueKevin_def)
qed

text \<open>A Person before the final clue: the run with one group does not succeed.\<close>

theorem person_first_pool_aborts:
  "fst (generateHuntSequences 0 1 guardWorld) =
     Inl (Error ''Could not generate valid sequence for Group 1 after 100 attempts. Try using more clues or fewer groups.'')"
proof -
  have h: "arrays guardWorld 0 = [clueGuard, clueKevin]"
    by (simp add: guardWorld_def)
  from generate_two_clues [OF h] show ?thesis
    by (simp add: ex_kinds exhaustedMessage_text showNat_small)
qed

subsection \<open>The attempt bound\<close>

text \<open>
  C7. The loop of a group, started with \<open>attempts = 0\<close>, ends with \<open>attempts\<close> at most
  100, and at exactly 100 if no sequence was committed. In that case the group loop
  returns no mapping but the error whose message names the group and the 100 attempts.
  For the run: if groups \<open>1..k - 1\<close> committed and the loop of group \<open>k \<le> N\<close> ends
  without a sequence, \<open>generateHuntSequences\<close> returns exactly the error naming \<open>k\<close>,
  whatever was assigned before; and every error of a run on a pool of at least two clues
  arises so, from a group in \<open>1..N\<close> whose 100 attempts all failed.
\<close>

theorem attempt_bound_and_abort:
  "(attemptLoop rc fc g 0 L w = (Inr (sq, a, L'), w') \<longrightarrow>
      a \<le> 100 \<and> (sq = None \<longrightarrow> a = 100)) \<and>
   (g \<le> N \<and> attemptLoop rc fc g 0 L w = (Inr (None, a, L'), w') \<longrightarrow>
      groupLoop rc fc N g m L w =
        (Inl (Error (''Could not generate valid sequence for Group '' @ showNat g @
                     '' after 100 attempts. Try using more clues or fewer groups.'')), w')) \<and>
   (2 \<le> length (arrays v clues) \<and> fst (generateHuntSequences clues N v) = Inl e \<longrightarrow>
      (\<exists>k\<in>{1..N}. e = Error (''Could not generate valid sequence for Group '' @ showNat k @
                     '' after 100 attempts. Try using more clues or fewer groups.''))) \<and>
   (2 \<le> length (arrays u pool) \<and>
    afterCommits (next_addr u) (last (arrays u pool)) n 1 Map.empty ({}, {})
      (snd (alloc (butlast (arrays u pool)) u)) = Some (k, mk, Lk, wk) \<and>
    k \<le> M \<and>
    attemptLoop (next_addr u) (last (arrays u pool)) k 0 Lk wk = (Inr (None, b, Lb), wb) \<longrightarrow>
      generateHuntSequences pool M u =
        (Inl (Error (''Could not generate valid sequence for Group '' @ showNat k @
                     '' after 100 attempts. Try using more clues or fewer groups.'')), wb)) \<and>
   (2 \<le> length (arrays u pool) \<and> generateHuntSequences pool M u = (Inl e', wc) \<longrightarrow>
      (\<exists>n' k' mk' Lk' wk' Lb'.
         afterCommits (next_addr u) (last (arrays u pool)) n' 1 Map.empty ({}, {})
           (snd (alloc (butlast (arrays u pool)) u)) = Some (k', mk', Lk', wk') \<and>
         k' \<in> {1..M} \<and>
         attemptLoop (next_addr u) (last (arrays u pool)) k' 0 Lk' wk' =
           (Inr (None, 100, Lb'), wc) \<and>
         e' = Error (''Could not generate valid sequence for Group '' @ showNat k' @
                     '' after 100 attempts. Try using more clues or fewer groups.'')))"
proof -
  let ?rc = "next_addr u"
  let ?fc = "last (arrays u pool)"
  let ?w1 = "snd (alloc (butlast (arrays u pool)) u)"
  have bound: "a \<le> 100 \<and> (sq = None \<longrightarrow> a = 100)"
    if "attemptLoop rc fc g 0 L w = (Inr (sq, a, L'), w')"
    using attemptLoop_attempts [OF that] by (simp add: maxAttempts_def)
  have abort: "groupLoop rc fc N g m L w =
        (Inl (Error (''Could not generate valid sequence for Group '' @ showNat g @
                     '' after 100 attempts. Try using more clues or fewer groups.'')), w')"
    if "g \<le> N \<and> attemptLoop rc fc g 0 L w = (Inr (None, a, L'), w')"
    using that groupLoop_exhausted [of g N rc fc L w a L' w' m]
    by (simp add: exhaustedMessage_text)
  have run: "\<exists>k\<in>{1..N}. e = Error (''Could not generate valid sequence for Group '' @ showNat k @
                     '' after 100 attempts. Try using more clues or fewer groups.'')"
    if "2 \<le> length (arrays v clues) \<and> fst (generateHuntSequences clues N v) = Inl e"
    using that generateHuntSequences_Inl [of clues N v e]
    by (simp add: exhaustedMessage_text)
  have later: "generateHuntSequences pool M u =
        (Inl (Error (''Could not generate valid sequence for Group '' @ showNat k @
                     '' after 100 attempts. Try using more clues or fewer groups.'')), wb)"
    if h: "2 \<le> length (arrays u pool) \<and>
        afterCommits ?rc ?fc n 1 Map.empty ({}, {}) ?w1 = Some (k, mk, Lk, wk) \<and> k \<le> M \<and>
        attemptLoop ?rc ?fc k 0 Lk wk = (Inr (None, b, Lb), wb)"
  proof -
    from h have k: "k \<le> M + 1" by simp
    have "generateHuntSequences pool M u = groupLoop ?rc ?fc M 1 Map.empty ({}, {}) ?w1"
      using h by (simp add: generateHuntSequences_groupLoop)
    also have "\<dots> = groupLoop ?rc ?fc M k mk Lk wk"
      using afterCommits_groupLoop [OF _ k] h by blast
    also have "\<dots> = (Inl (Error (exhaustedMessage k)), wb)"
      using groupLoop_exhausted [of k M ?rc ?fc Lk wk b Lb wb mk] h by simp
    finally show ?thesis
      by (simp add: exhaustedMessage_text)
  qed
  have named: "\<exists>n' k' mk' Lk' wk' Lb'.
         afterCommits ?rc ?fc n' 1 Map.empty ({}, {}) ?w1 = Some (k', mk', Lk', wk') \<and>
         k' \<in> {1..M} \<and>
         attemptLoop ?rc ?fc k' 0 Lk' wk' = (Inr (None, 100, Lb'), wc) \<and>
         e' = Error (''Could not generate valid sequence for Group '' @ showNat k' @
                     '' after 100 attempts. Try using more clues or fewer groups.'')"
    if h: "2 \<le> length (arrays u pool) \<and> generateHuntSequences pool M u = (Inl e', wc)"
  proof -
    from h have two: "2 \<le> length (arrays u pool)" ..
    have gl: "groupLoop ?rc ?fc M 1 Map.empty ({}, {}) ?w1 = (Inl e', wc)"
      using generateHuntSequences_groupLoop [OF two, of M] h by simp
    have "length (butlast (arrays u pool)) = length (arrays u pool) - 1"
      by (rule length_butlast)
    with h have "0 < length (butlast (arrays u pool))"
      by arith
    then have "butlast (arrays u pool) \<noteq> []"
      by (metis length_greater_0_conv)
    then have "?rc < next_addr ?w1" "arrays ?w1 ?rc \<noteq> []"
      by (simp_all add: alloc_def)
    from groupLoop_Inl_head [OF gl this]
    obtain n' mk' Lk' wk' a' Lb' where
      ac: "afterCommits ?rc ?fc n' 1 Map.empty ({}, {}) ?w1 = Some (1 + n', mk', Lk', wk')"
      and le: "1 + n' \<le> M"
      and al: "attemptLoop ?rc ?fc (1 + n') 0 Lk' wk' = (Inr (None, a', Lb'), wc)"
      and e: "e' = Error (exhaustedMessage (1 + n'))"
      by blast
    have "a' = 100"
      using attemptLoop_attempts [OF al] by (simp add: maxAttempts_def)
    with ac le al e have
      "afterCommits ?rc ?fc n' 1 Map.empty ({}, {}) ?w1 = Some (1 + n', mk', Lk', wk') \<and>
       1 + n' \<in> {1..M} \<and>
       attemptLoop ?rc ?fc (1 + n') 0 Lk' wk' = (Inr (None, 100, Lb'), wc) \<and>
       e' = Error (''Could not generate valid sequence for Group '' @ showNat (1 + n') @
                     '' after 100 attempts. Try using more clues or fewer groups.'')"
      by (simp add: exhaustedMessage_text)
    then show ?thesis by blast
  qed
  from bound abort run later named show ?thesis
    by blast
qed

text \<open>
  One Place before the final clue and three groups: group 1 commits, group 2 finds the
  only opening used, and the run returns the error of group 2, not the mapping of group 1.
\<close>

theorem attempt_bound_and_abort_witness:
  "\<exists>mk Lk wk w'.
     2 \<le> length (arrays pianoWorld 0) \<and>
     afterCommits 1 clueKevin 1 1 Map.empty ({}, {}) (snd (alloc [cluePiano] pianoWorld)) =
       Some (2, mk, Lk, wk) \<and>
     mk 1 = Some (candidateSequence 1 [cluePiano] clueKevin) \<and>
     (2::nat) \<le> 3 \<and>
     attemptLoop 1 clueKevin 2 0 Lk wk = (Inr (None, 100, Lk), w') \<and>
     groupLoop 1 clueKevin 3 2 mk Lk wk =
       (Inl (Error ''Could not generate valid sequence for Group 2 after 100 attempts. Try using more clues or fewer groups.''), w') \<and>
     generateHuntSequences 0 3 pianoWorld =
       (Inl (Error ''Could not generate valid sequence for Group 2 after 100 attempts. Try using more clues or fewer groups.''), w')"
proof -
  let ?w1 = "snd (alloc [cluePiano] pianoWorld)"
  let ?L0 = "({}, {}) :: ledger"
  let ?seq = "candidateSequence 1 [cluePiano] clueKevin"
  let ?L1 = "(insert (clue.question cluePiano) (fst ?L0), snd ?L0 \<union> set (pairKeys [cluePiano]))"
  have na: "next_addr pianoWorld = 1" and arr0: "arrays pianoWorld 0 = [cluePiano, clueKevin]"
    by (simp_all add: pianoWorld_def)
  have arr: "arrays ?w1 1 = [cluePiano]" and rc: "1 < next_addr ?w1"
    by (simp_all add: alloc_def pianoWorld_def)
  from pickCandidate_single [OF arr rc, of ?L0] ex_kinds(3)
  obtain w2 s where e2: "extends ?w1 w2" and s: "arrays w2 s = [cluePiano]"
    and p: "pickCandidate 1 ?L0 ?w1 = (Inr (Some s), w2)"
    by auto
  have "0 < maxAttempts" "arrays w2 s \<noteq> []"
    by (simp_all add: maxAttempts_def s)
  from attemptLoop_commit [OF this(1) p this(2), of clueKevin 1]
  have a1: "attemptLoop 1 clueKevin 1 0 ?L0 ?w1 = (Inr (Some ?seq, 0 + 1, ?L1), w2)"
    by (simp add: s)
  have ac: "afterCommits 1 clueKevin 1 1 Map.empty ?L0 ?w1 = Some (2, [1 \<mapsto> ?seq], ?L1, w2)"
    using a1 by simp
  have arr2: "arrays w2 1 = [cluePiano]" and rc2: "1 < next_addr w2"
    using e2 arr rc by (auto simp: extends_def)
  have used: "clue.question cluePiano \<in> fst ?L1 \<or> placeFirstViolated cluePiano"
    by simp
  from attemptLoop_rejects_all [OF arr2 rc2 used, of 0 clueKevin 2]
  obtain w3 where a2: "attemptLoop 1 clueKevin 2 0 ?L1 w2 = (Inr (None, 100, ?L1), w3)"
    by (auto simp: maxAttempts_def)
  note inst = attempt_bound_and_abort [where rc = 1 and fc = clueKevin and g = 2 and L = ?L1
      and w = w2 and sq = None and a = 100 and L' = ?L1 and w' = w3 and N = 3
      and m = "[1 \<mapsto> ?seq]" and u = pianoWorld and pool = 0 and n = 1 and k = 2
      and mk = "[1 \<mapsto> ?seq]" and Lk = ?L1 and wk = w2 and M = 3 and b = 100 and Lb = ?L1
      and wb = w3]
  have two: "2 \<le> length (arrays pianoWorld 0)"
    by (simp add: arr0)
  have ac': "afterCommits (next_addr pianoWorld) (last (arrays pianoWorld 0)) 1 1 Map.empty ({}, {})
      (snd (alloc (butlast (arrays pianoWorld 0)) pianoWorld)) = Some (2, [1 \<mapsto> ?seq], ?L1, w2)"
    using ac by (simp add: na arr0)
  have a2': "attemptLoop (next_addr pianoWorld) (last (arrays pianoWorld 0)) 2 0 ?L1 w2 =
      (Inr (None, 100, ?L1), w3)"
    using a2 by (simp add: na arr0)
  from inst two ac' a2' a2
  have "groupLoop 1 clueKevin 3 2 [1 \<mapsto> ?seq] ?L1 w2 =
       (Inl (Error ''Could not generate valid sequence for Group 2 after 100 attempts. Try using more clues or fewer groups.''), w3) \<and>
     generateHuntSequences 0 3 pianoWorld =
       (Inl (Error ''Could not generate valid sequence for Group 2 after 100 attempts. Try using more clues or fewer groups.''), w3)"
    by (simp add: showNat_small)
  with two ac a2 show ?thesis
    by (intro exI [of _ "[1 \<mapsto> ?seq]"] exI [of _ ?L1] exI [of _ w2] exI [of _ w3]) simp
qed

subsection \<open>Too few clues\<close>

text \<open>
  C8. With fewer than two clues the run returns the error at once, whatever the number of
  groups: the store is returned as it was, so no array was allocated and no random number
  drawn; the ledger, created after the check, does not exist yet.
\<close>

theorem insufficient_clues:
  assumes "length (arrays w clues) < 2"
  shows "generateHuntSequences clues N w =
           (Inl (Error ''Need at least 2 clues to generate a hunt''), w)"
  using assms by (simp add: generateHuntSequences_def)

theorem insufficient_clues_witness:
  "length (arrays lonelyWorld 0) < 2 \<and>
   generateHuntSequences 0 3 lonelyWorld =
     (Inl (Error ''Need at least 2 clues to generate a hunt''), lonelyWorld)"
proof -
  have h: "length (arrays lonelyWorld 0) < 2"
    by (simp add: lonelyWorld_def)
  from insufficient_clues [OF h, of 3] h show ?thesis by simp
qed

subsection \<open>The chain of a sequence\<close>

text \<open>
  C9. Every sequence of a successful run is numbered \<open>1..len\<close> without gaps, the label
  of every step but the last contains the question of the following step, and the label of
  the last step is the number \<open>len + 1\<close> followed by \<open>. The End\<close>.
\<close>

theorem chain_invariant:
  assumes "fst (generateHuntSequences clues N w) = Inr allSequences"
    and "allSequences g = Some s"
  shows "chainLinked s \<and> nextClue (last s) = showNat (length s + 1) @ ''. The End''"
proof -
  from generate_success [OF assms(1)] obtain L
    where c: "committed (last (arrays w clues)) allSequences L"
    by blast
  from committed_nonempty [OF c assms(2)] obtain sc
    where ne: "sc \<noteq> []" and s: "s = candidateSequence g sc (last (arrays w clues))"
    by blast
  have "nextClue (last s) = showNat (length s + 1) @ ''. The End''"
    unfolding s by (simp add: candidateSequence_last candidateSequence_length finalStep_def)
  with candidateSequence_chain [OF ne] s show ?thesis by simp
qed

theorem chain_invariant_witness:
  "fst (generateHuntSequences 0 2 exWorld) = Inr exSequences \<and>
   exSequences 1 = Some (candidateSequence 1 [clueClock, cluePiano] clueKevin) \<and>
   chainLinked (candidateSequence 1 [clueClock, cluePiano] clueKevin) \<and>
   nextClue (last (candidateSequence 1 [clueClock, cluePiano] clueKevin)) = ''4. The End''"
proof -
  have s: "exSequences 1 = Some (candidateSequence 1 [clueClock, cluePiano] clueKevin)"
    by (simp add: exSequences_def)
  have "showNat (length (candidateSequence 1 [clueClock, cluePiano] clueKevin) + 1) = ''4''"
    by (simp add: candidateSequence_def showNat.simps)
  with chain_invariant [OF ex_run s] ex_run s show ?thesis by simp
qed

subsection \<open>The input array is left alone\<close>

text \<open>
  C10. After any run, successful or aborted, the array the caller passed, like every array
  allocated before the call, holds the same clues in the same order.
\<close>

theorem input_not_mutated:
  assumes "clues < next_addr w"
  shows "arrays (snd (generateHuntSequences clues N w)) clues = arrays w clues \<and>
         (\<forall>a<next_addr w. arrays (snd (generateHuntSequences clues N w)) a = arrays w a)"
  using generateHuntSequences_extends [of w clues N] assms
  by (simp add: extends_def)

theorem input_not_mutated_witness:
  "0 < next_addr exWorld \<and>
   arrays (snd (generateHuntSequences 0 2 exWorld)) 0 = [cluePiano, clueClock, clueKevin]"
proof -
  have h: "0 < next_addr exWorld"
    by (simp add: exWorld_def)
  have "arrays exWorld 0 = [cluePiano, clueClock, clueKevin]"
    by (simp add: exWorld_def)
  with input_not_mutated [OF h, of 2] h show ?thesis by simp
qed

end
